theory Spec2Isabelle
  imports Complex_Main "HOL-Library.Multiset"
begin

section \<open>Data model\<close>

text \<open>
  The strategy of \<^verbatim>\<open>src/strategy/antiflatten_distribution_strategy.py\<close>. A float
  is modelled by the real number it holds; NaN is left out. Token ids of the host's
  sequence are Python ints; the index returned by \<^verbatim>\<open>torch.argmax\<close> is a natural
  number.
\<close>

datatype py_error = IndexError | RuntimeError | ZeroDivisionError

text \<open>The floating-point element types of a tensor and \<^verbatim>\<open>torch.finfo(dtype).max\<close>.\<close>

datatype dtype = Float16 | BFloat16 | Float32 | Float64

fun finfo_max :: "dtype \<Rightarrow> real" where
  "finfo_max Float16 = 65504"
| "finfo_max BFloat16 = (2 - 1 / 2 ^ 7) * 2 ^ 127"
| "finfo_max Float32 = (2 - 1 / 2 ^ 23) * 2 ^ 127"
| "finfo_max Float64 = (2 - 1 / 2 ^ 52) * 2 ^ 1023"

text \<open>
  The logits of one step: a tensor of shape (batch, vocabulary), kept as its rows
  together with the size of the vocabulary axis.
\<close>

record logits_tensor =
  lg_dtype :: dtype
  lg_vocab :: nat
  lg_rows :: "real list list"

definition logits_wf :: "logits_tensor \<Rightarrow> bool" where
  "logits_wf lg = list_all (\<lambda>r. length r = lg_vocab lg) (lg_rows lg)"

text \<open>
  One cached array of shape (batch, head, sequence-position, feature), as nested lists
  in that order of axes.
\<close>

record kv_tensor =
  kv_dtype :: dtype
  kv_data :: "real list list list list"

type_synonym kv_cache = "kv_tensor list list"

text \<open>The sequence-position lengths found in an array: one per (batch, head) pair.\<close>

definition seq_lens :: "kv_tensor \<Rightarrow> nat list" where
  "seq_lens t = concat (map (map length) (kv_data t))"

definition has_seq_len :: "nat \<Rightarrow> kv_tensor \<Rightarrow> bool" where
  "has_seq_len n t = list_all (\<lambda>l. l = n) (seq_lens t)"

text \<open>The attributes of \<^verbatim>\<open>AntiFlattenDistributionStrategy\<close>.\<close>

record strategy =
  cumulative_prob_threshold :: real
  ratio_threshold :: real
  is_flat :: bool
  backtrack_position :: "(nat \<times> nat) option"
  keep_index :: nat

text \<open>\<^verbatim>\<open>__init__\<close>\<close>

definition init :: "real \<Rightarrow> real \<Rightarrow> strategy" where
  "init cpt rt =
     \<lparr>cumulative_prob_threshold = cpt, ratio_threshold = rt, is_flat = False,
      backtrack_position = None, keep_index = 0\<rparr>"

definition get_keep_index :: "strategy \<Rightarrow> nat" where
  "get_keep_index st = keep_index st"

section \<open>Floating-point arithmetic\<close>

text \<open>
  The distribution is a \<^verbatim>\<open>torch.FloatTensor\<close>, 32-bit floats on the CPU, and
  \<^verbatim>\<open>.item()\<close> and the Python literals give Python floats, 64-bit. Both are IEEE 754
  binary formats with rounding to nearest, ties to even. A format is its precision in
  bits and the exponents of its smallest and largest normal numbers.
\<close>

record float_format =
  precision :: nat
  emin :: int
  emax :: int

definition binary32 :: float_format where
  "binary32 = \<lparr>precision = 24, emin = - 126, emax = 127\<rparr>"

definition binary64 :: float_format where
  "binary64 = \<lparr>precision = 53, emin = - 1022, emax = 1023\<rparr>"

text \<open>
  The exponent of a positive number: the \<^verbatim>\<open>e\<close> with \<^verbatim>\<open>2^e <= x < 2^(e+1)\<close>, searched
  upwards from 0 or downwards from -1 and kept between the format's bounds (the subnormal
  numbers share the exponent \<^verbatim>\<open>emin\<close>).
\<close>

function exponent_up :: "int \<Rightarrow> int \<Rightarrow> real \<Rightarrow> int" where
  "exponent_up hi e x = (if hi \<le> e \<or> x < 2 powi (e + 1) then e else exponent_up hi (e + 1) x)"
  by pat_completeness auto
termination
  by (relation "measure (\<lambda>(hi, e, x). nat (hi - e))") auto

function exponent_down :: "int \<Rightarrow> int \<Rightarrow> real \<Rightarrow> int" where
  "exponent_down lo e x = (if e \<le> lo \<or> 2 powi e \<le> x then e else exponent_down lo (e - 1) x)"
  by pat_completeness auto
termination
  by (relation "measure (\<lambda>(lo, e, x). nat (e - lo))") auto

declare exponent_up.simps [simp del] exponent_down.simps [simp del]

definition float_exponent :: "float_format \<Rightarrow> real \<Rightarrow> int" where
  "float_exponent fmt x =
     (if 1 \<le> x then exponent_up (emax fmt) 0 x else exponent_down (emin fmt) (- 1) x)"

text \<open>Rounding to the nearest integer, a tie to the even one.\<close>

definition round_half_even :: "real \<Rightarrow> int" where
  "round_half_even y =
     (let n = \<lfloor>y\<rfloor>; r = y - of_int n
      in if r < 1 / 2 then n else if 1 / 2 < r then n + 1 else if even n then n else n + 1)"

text \<open>
  Rounding a non-negative number to the format: to the nearest multiple of the unit in
  the last place of its exponent. A result beyond the largest finite number is infinite
  in IEEE 754; here \<^verbatim>\<open>2^(emax+1)\<close> stands for it, which compares with every finite number
  of the format as infinity does.
\<close>

definition round_magnitude :: "float_format \<Rightarrow> real \<Rightarrow> real" where
  "round_magnitude fmt a =
     (if a = 0 then 0
      else if 2 powi (emax fmt + 1) \<le> a then 2 powi (emax fmt + 1)
      else (let ulp = 2 powi (float_exponent fmt a - int (precision fmt) + 1)
            in of_int (round_half_even (a / ulp)) * ulp))"

definition round_to :: "float_format \<Rightarrow> real \<Rightarrow> real" where
  "round_to fmt x = (if x < 0 then - round_magnitude fmt (- x) else round_magnitude fmt x)"

text \<open>
  \<^verbatim>\<open>torch.tensor(xs)\<close> of a list of Python float literals: each literal is a 64-bit
  float, stored as a 32-bit float.
\<close>

definition tensor32 :: "real list \<Rightarrow> real list" where
  "tensor32 xs = map (\<lambda>x. round_to binary32 (round_to binary64 x)) xs"

section \<open>Library functions the strategy calls\<close>

text \<open>
  \<^verbatim>\<open>torch.argmax\<close> of a flattened tensor: the index of the first maximal entry; it
  raises on a tensor with no element.
\<close>

fun argmax_from :: "real \<Rightarrow> nat \<Rightarrow> nat \<Rightarrow> real list \<Rightarrow> nat" where
  "argmax_from best bi i [] = bi"
| "argmax_from best bi i (x # xs) =
     (if best < x then argmax_from x i (Suc i) xs else argmax_from best bi (Suc i) xs)"

fun argmax :: "real list \<Rightarrow> py_error + nat" where
  "argmax [] = Inl RuntimeError"
| "argmax (x # xs) = Inr (argmax_from x 0 1 xs)"

text \<open>\<^verbatim>\<open>torch.sort(probs, descending=True)\<close>, the values.\<close>

definition sort_descending :: "real list \<Rightarrow> real list" where
  "sort_descending xs = rev (sort xs)"

text \<open>
  \<^verbatim>\<open>torch.cumsum(xs, dim=0)\<close> of a 32-bit tensor on the CPU: the kernel keeps the
  running sum in a 64-bit accumulator, adds the entries one by one and stores each
  running sum rounded to 32 bits.
\<close>

fun cumsum_from :: "real \<Rightarrow> real list \<Rightarrow> real list" where
  "cumsum_from cum_number [] = []"
| "cumsum_from cum_number (x # xs) =
     round_to binary32 (round_to binary64 (cum_number + x))
       # cumsum_from (round_to binary64 (cum_number + x)) xs"

definition cumsum :: "real list \<Rightarrow> real list" where
  "cumsum xs = cumsum_from 0 xs"

text \<open>
  \<^verbatim>\<open>torch.searchsorted(seq, v)\<close> with the default \<^verbatim>\<open>right=False\<close>: the Python float
  \<^verbatim>\<open>v\<close> is cast to the element type of \<^verbatim>\<open>seq\<close>, and the kernel's binary search
  moves \<^verbatim>\<open>start\<close> past every probed entry that is not \<^verbatim>\<open>>= v\<close>.
\<close>

function lower_bound :: "nat \<Rightarrow> nat \<Rightarrow> real \<Rightarrow> real list \<Rightarrow> nat" where
  "lower_bound start stop val bd =
     (if start < stop
      then (let mid = start + (stop - start) div 2
            in if bd ! mid < val then lower_bound (mid + 1) stop val bd
               else lower_bound start mid val bd)
      else start)"
  by pat_completeness auto
termination
  by (relation "measure (\<lambda>(start, stop, val, bd). stop - start)") auto

declare lower_bound.simps [simp del]

definition searchsorted :: "real list \<Rightarrow> real \<Rightarrow> nat" where
  "searchsorted seq v = lower_bound 0 (length seq) (round_to binary32 v) seq"

text \<open>
  The Python slice \<^verbatim>\<open>xs[:e]\<close>: a negative stop counts from the end, and every stop
  is clipped to the list.
\<close>

definition slice_to :: "int \<Rightarrow> 'a list \<Rightarrow> 'a list" where
  "slice_to e xs = (if e < 0 then take (nat (int (length xs) + e)) xs else take (nat e) xs)"

text \<open>\<^verbatim>\<open>layer[:, :, :e, :]\<close>\<close>

definition slice_layer :: "int \<Rightarrow> kv_tensor \<Rightarrow> kv_tensor" where
  "slice_layer e t = t\<lparr>kv_data := map (map (slice_to e)) (kv_data t)\<rparr>"

section \<open>The hooks\<close>

text \<open>
  \<^verbatim>\<open>_is_distribution_flat\<close>, on the flattened distribution. The two probabilities
  leave the tensor as Python floats, so the sum with \<^verbatim>\<open>1e-8\<close> and the ratio are
  64-bit operations.
\<close>

definition is_distribution_flat :: "strategy \<Rightarrow> real list \<Rightarrow> py_error + bool" where
  "is_distribution_flat st probs =
     (let sorted_probs = sort_descending probs;
          cumulative_probs = cumsum sorted_probs;
          num_top_tokens = searchsorted cumulative_probs (cumulative_prob_threshold st) + 1;
          top_probs = take num_top_tokens sorted_probs
      in if num_top_tokens < 2 then Inr False
         else (case top_probs of
                 [] \<Rightarrow> Inl IndexError
               | max_prob # _ \<Rightarrow>
                   (let last_max_prob =
                          round_to binary64 (last top_probs + round_to binary64 (1 / 10 ^ 8))
                    in if last_max_prob = 0 then Inl ZeroDivisionError
                       else Inr (round_to binary64 (max_prob / last_max_prob)
                                   \<le> ratio_threshold st))))"

text \<open>
  \<^verbatim>\<open>on_logits\<close>: the column of the recorded token is overwritten in every row; an
  index outside the vocabulary axis raises before the position is cleared.
\<close>

definition on_logits :: "strategy \<Rightarrow> logits_tensor \<Rightarrow> py_error + (strategy \<times> logits_tensor)" where
  "on_logits st logits =
     (case backtrack_position st of
        Some (frontier, tok) \<Rightarrow>
          if is_flat st then
            (if tok < lg_vocab logits
             then Inr (st\<lparr>backtrack_position := None\<rparr>,
                       logits\<lparr>lg_rows := map (\<lambda>r. r[tok := finfo_max (lg_dtype logits)])
                                             (lg_rows logits)\<rparr>)
             else Inl IndexError)
          else Inr (st, logits)
      | None \<Rightarrow> Inr (st, logits))"

text \<open>\<^verbatim>\<open>on_probs\<close>\<close>

definition on_probs :: "strategy \<Rightarrow> real list \<Rightarrow> py_error + (strategy \<times> real list)" where
  "on_probs st probs =
     (case is_distribution_flat st probs of
        Inl e \<Rightarrow> Inl e
      | Inr b \<Rightarrow> Inr (st\<lparr>is_flat := b\<rparr>, probs))"

text \<open>\<^verbatim>\<open>on_next_token\<close>\<close>

definition on_next_token :: "strategy \<Rightarrow> int list \<Rightarrow> real list \<Rightarrow> py_error + strategy" where
  "on_next_token st continuation_tokens probs =
     (if continuation_tokens = [] then Inl IndexError
      else (case argmax probs of
              Inl e \<Rightarrow> Inl e
            | Inr highest_prob_token \<Rightarrow>
                if last continuation_tokens \<noteq> int highest_prob_token
                then Inr (st\<lparr>keep_index := length continuation_tokens - 1,
                             backtrack_position :=
                               Some (length continuation_tokens - 1, highest_prob_token)\<rparr>)
                else if backtrack_position st = None
                then Inr (st\<lparr>keep_index := keep_index st + 1\<rparr>)
                else Inr st))"

text \<open>
  The \<^verbatim>\<open>while\<close> loop of \<^verbatim>\<open>backtrack\<close>: it pops while the counter is above the
  frontier and returns the tokens left and the final counter.
\<close>

function pop_while :: "nat \<Rightarrow> nat \<Rightarrow> int list \<Rightarrow> py_error + (int list \<times> nat)" where
  "pop_while frontier current_position toks =
     (if frontier < current_position
      then (if toks = [] then Inl IndexError
            else pop_while frontier (current_position - 1) (butlast toks))
      else Inr (toks, current_position))"
  by pat_completeness auto
termination
  by (relation "measure (\<lambda>(frontier, current_position, toks). current_position)") auto

declare pop_while.simps [simp del]

text \<open>
  \<^verbatim>\<open>backtrack\<close>. The method assigns no attribute of the strategy, so the state comes
  back as it went in. A cache that is \<^verbatim>\<open>None\<close> or an empty tuple is falsy and is
  returned as it is.
\<close>

definition backtrack ::
  "strategy \<Rightarrow> int list \<Rightarrow> kv_cache option \<Rightarrow> py_error + (strategy \<times> int list \<times> kv_cache option)"
where
  "backtrack st continuation_tokens past_key_values =
     (case backtrack_position st of
        Some (frontier, tok) \<Rightarrow>
          if is_flat st then
            (let initial_position = length continuation_tokens
             in case pop_while frontier initial_position continuation_tokens of
                  Inl e \<Rightarrow> Inl e
                | Inr (toks, current_position) \<Rightarrow>
                    Inr (st, toks,
                         (case past_key_values of
                            None \<Rightarrow> None
                          | Some [] \<Rightarrow> Some []
                          | Some (p # ps) \<Rightarrow>
                              Some (map (map (slice_layer
                                      (int current_position - int initial_position)))
                                    (p # ps)))))
          else Inr (st, continuation_tokens, past_key_values)
      | None \<Rightarrow> Inr (st, continuation_tokens, past_key_values))"

section \<open>The host's calls\<close>

text \<open>
  Modelled from the spec: the decoding loop that calls the hooks is not part of the
  sources. Per generation step the host calls \<^verbatim>\<open>on_logits\<close>, then
  \<^verbatim>\<open>on_probs\<close>, appends the sampled token to its sequence, calls
  \<^verbatim>\<open>on_next_token\<close> with that sequence, and may call \<^verbatim>\<open>backtrack\<close> once
  before the next step's \<^verbatim>\<open>on_logits\<close>; it goes on with the sequence that
  \<^verbatim>\<open>backtrack\<close> returns. A configuration is the strategy together with the
  host's token sequence.
\<close>

datatype hook =
  OnLogits logits_tensor
| OnProbs "real list"
| Append int
| OnNextToken "real list"
| Backtrack "kv_cache option"

type_synonym config = "strategy \<times> int list"

fun call :: "hook \<Rightarrow> config \<Rightarrow> py_error + config" where
  "call (OnLogits lg) (st, toks) =
     (case on_logits st lg of Inl e \<Rightarrow> Inl e | Inr (st', lg') \<Rightarrow> Inr (st', toks))"
| "call (OnProbs p) (st, toks) =
     (case on_probs st p of Inl e \<Rightarrow> Inl e | Inr (st', p') \<Rightarrow> Inr (st', toks))"
| "call (Append t) (st, toks) = Inr (st, toks @ [t])"
| "call (OnNextToken p) (st, toks) =
     (case on_next_token st toks p of Inl e \<Rightarrow> Inl e | Inr st' \<Rightarrow> Inr (st', toks))"
| "call (Backtrack c) (st, toks) =
     (case backtrack st toks c of Inl e \<Rightarrow> Inl e | Inr (st', toks', c') \<Rightarrow> Inr (st', toks'))"

fun run :: "config \<Rightarrow> hook list \<Rightarrow> py_error + config" where
  "run c [] = Inr c"
| "run c (h # hs) = (case call h c of Inl e \<Rightarrow> Inl e | Inr c' \<Rightarrow> run c' hs)"

text \<open>The call the host's order allows next, as the phases of one generation step.\<close>

datatype phase = AwaitLogits | AwaitProbs | AwaitSample | AwaitNextToken | AfterNextToken

fun next_phase :: "phase \<Rightarrow> hook \<Rightarrow> phase option" where
  "next_phase AwaitLogits (OnLogits lg) = Some AwaitProbs"
| "next_phase AwaitProbs (OnProbs p) = Some AwaitSample"
| "next_phase AwaitSample (Append t) = Some AwaitNextToken"
| "next_phase AwaitNextToken (OnNextToken p) = Some AfterNextToken"
| "next_phase AfterNextToken (Backtrack c) = Some AwaitLogits"
| "next_phase AfterNextToken (OnLogits lg) = Some AwaitProbs"
| "next_phase ph h = None"

fun phase_after :: "phase \<Rightarrow> hook list \<Rightarrow> phase option" where
  "phase_after ph [] = Some ph"
| "phase_after ph (h # hs) =
     (case next_phase ph h of None \<Rightarrow> None | Some ph' \<Rightarrow> phase_after ph' hs)"

definition prescribed :: "hook list \<Rightarrow> bool" where
  "prescribed hs = (phase_after AwaitLogits hs \<noteq> None)"

text \<open>
  What the host's order keeps true of a configuration: the keep index is at most the
  length of the sequence (less than it between the append and \<^verbatim>\<open>on_next_token\<close>),
  and the frontier of a pending position is the keep index.
\<close>

definition host_inv :: "phase \<Rightarrow> config \<Rightarrow> bool" where
  "host_inv ph c =
     (case c of (st, toks) \<Rightarrow>
        keep_index st \<le> length toks
        \<and> (case backtrack_position st of None \<Rightarrow> True | Some (f, t) \<Rightarrow> f = keep_index st)
        \<and> (if ph = AwaitNextToken then keep_index st < length toks else True))"

text \<open>
  One whole generation step: its logits, its distribution, the sampled token, and the
  cache of the \<^verbatim>\<open>backtrack\<close> call when the host makes one.
\<close>

record gen_step =
  gs_logits :: logits_tensor
  gs_probs :: "real list"
  gs_sampled :: int
  gs_backtrack :: "kv_cache option option"

definition step_hooks :: "gen_step \<Rightarrow> hook list" where
  "step_hooks s =
     [OnLogits (gs_logits s), OnProbs (gs_probs s), Append (gs_sampled s),
      OnNextToken (gs_probs s)]
     @ (case gs_backtrack s of None \<Rightarrow> [] | Some c \<Rightarrow> [Backtrack c])"

text \<open>A step whose sampled token is the argmax of its distribution, with a given verdict.\<close>

definition matching_step :: "strategy \<Rightarrow> bool \<Rightarrow> gen_step \<Rightarrow> bool" where
  "matching_step st verdict s =
     (is_distribution_flat st (gs_probs s) = Inr verdict
      \<and> (case argmax (gs_probs s) of Inl e \<Rightarrow> False | Inr a \<Rightarrow> gs_sampled s = int a))"


section \<open>Inputs of the scenarios\<close>

definition default_state :: "bool \<Rightarrow> (nat \<times> nat) option \<Rightarrow> nat \<Rightarrow> strategy" where
  "default_state flat pos k =
     \<lparr>cumulative_prob_threshold = 35 / 100, ratio_threshold = 15 / 10, is_flat = flat,
      backtrack_position = pos, keep_index = k\<rparr>"

text \<open>A distribution over eight tokens whose argmax is token 7 and that is flat.\<close>

definition probs_flat7 :: "real list" where
  "probs_flat7 = tensor32 [12 / 100, 12 / 100, 12 / 100, 12 / 100, 12 / 100, 12 / 100, 12 / 100, 16 / 100]"

text \<open>Scenario A's distribution: not flat, argmax token 0.\<close>

definition probs_peaked :: "real list" where
  "probs_peaked = tensor32 [50 / 100, 48 / 100, 2 / 100]"

definition probs_scenario_b :: "real list" where
  "probs_scenario_b = tensor32 [30 / 100, 29 / 100, 28 / 100, 13 / 100]"

definition logits3 :: logits_tensor where
  "logits3 = \<lparr>lg_dtype = Float16, lg_vocab = 3, lg_rows = [[1, 2, 3], [4, 5, 6]]\<rparr>"

definition logits8 :: logits_tensor where
  "logits8 = \<lparr>lg_dtype = Float32, lg_vocab = 8, lg_rows = [[0, 1, 2, 3, 4, 5, 6, 7]]\<rparr>"

text \<open>A flat distribution over three tokens with argmax 0, and steps that sample token 0.\<close>

definition probs_flat3 :: "real list" where
  "probs_flat3 = tensor32 [34 / 100, 33 / 100, 33 / 100]"

definition quiet_step :: gen_step where
  "quiet_step =
     \<lparr>gs_logits = logits3, gs_probs = probs_peaked, gs_sampled = 0, gs_backtrack = Some None\<rparr>"

definition flat_step :: gen_step where
  "flat_step =
     \<lparr>gs_logits = logits3, gs_probs = probs_flat3, gs_sampled = 0, gs_backtrack = Some None\<rparr>"

text \<open>Cached arrays with one batch entry, one head and two features per position.\<close>

definition kv_of :: "real list list \<Rightarrow> kv_tensor" where
  "kv_of sq = \<lparr>kv_dtype = Float32, kv_data = [[sq]]\<rparr>"

definition cache_of :: "real list list \<Rightarrow> kv_cache" where
  "cache_of sq = [[kv_of sq, kv_of sq]]"

section \<open>Evaluating the arithmetic\<close>

lemma exponent_up_stop: "hi \<le> e \<or> x < 2 powi (e + 1) \<Longrightarrow> exponent_up hi e x = e"
  by (subst exponent_up.simps) simp

lemma exponent_up_step:
  "\<not> (hi \<le> e \<or> x < 2 powi (e + 1)) \<Longrightarrow> exponent_up hi e x = exponent_up hi (e + 1) x"
  by (subst exponent_up.simps) simp

lemma exponent_down_stop: "e \<le> lo \<or> 2 powi e \<le> x \<Longrightarrow> exponent_down lo e x = e"
  by (subst exponent_down.simps) simp

lemma exponent_down_step:
  "\<not> (e \<le> lo \<or> 2 powi e \<le> x) \<Longrightarrow> exponent_down lo e x = exponent_down lo (e - 1) x"
  by (subst exponent_down.simps) simp

lemma lower_bound_done: "\<not> start < stop \<Longrightarrow> lower_bound start stop v bd = start"
  by (subst lower_bound.simps) simp

lemma lower_bound_right:
  "start < stop \<Longrightarrow> bd ! (start + (stop - start) div 2) < v
   \<Longrightarrow> lower_bound start stop v bd = lower_bound (start + (stop - start) div 2 + 1) stop v bd"
  by (subst lower_bound.simps) simp

lemma lower_bound_left:
  "start < stop \<Longrightarrow> \<not> bd ! (start + (stop - start) div 2) < v
   \<Longrightarrow> lower_bound start stop v bd = lower_bound start (start + (stop - start) div 2) v bd"
  by (subst lower_bound.simps) simp

lemmas float_eval = round_to_def round_magnitude_def float_exponent_def round_half_even_def
  binary32_def binary64_def exponent_up_stop exponent_up_step exponent_down_stop
  exponent_down_step Let_def tensor32_def

lemmas flat_eval = is_distribution_flat_def sort_descending_def cumsum_def searchsorted_def
  lower_bound_done lower_bound_right lower_bound_left

text \<open>The tensors of the scenarios and the default threshold as a 32-bit float.\<close>

lemma probs_peaked_val: "probs_peaked = [1 / 2, 16106127 / 2 ^ 25, 10737418 / 2 ^ 29]"
  unfolding probs_peaked_def by (simp add: float_eval)

lemma threshold32: "round_to binary32 (35 / 100) = 11744051 / 2 ^ 25"
  by (simp add: float_eval)

lemma threshold_literal:
  "round_to binary32 (round_to binary64 (35 / 100)) = round_to binary32 (35 / 100)"
  by (simp add: float_eval)

lemma epsilon64: "round_to binary64 (1 / 10 ^ 8) = 6044629098073146 / 2 ^ 79"
  by (simp add: float_eval)

section \<open>Properties of the rounding\<close>

lemma exponent_up_spec:
  assumes "2 powi e \<le> x" and "e \<le> hi"
  shows "e \<le> exponent_up hi e x \<and> exponent_up hi e x \<le> hi
    \<and> 2 powi (exponent_up hi e x) \<le> x
    \<and> (x < 2 powi (exponent_up hi e x + 1) \<or> exponent_up hi e x = hi)"
  using assms
proof (induction hi e x rule: exponent_up.induct)
  case (1 hi e x)
  show ?case
  proof (cases "hi \<le> e \<or> x < 2 powi (e + 1)")
    case True
    then have "exponent_up hi e x = e"
      by (subst exponent_up.simps) simp
    with True "1.prems" show ?thesis by auto
  next
    case False
    then have step: "exponent_up hi e x = exponent_up hi (e + 1) x"
      by (subst exponent_up.simps) simp
    from False have "2 powi (e + 1) \<le> x" and "e + 1 \<le> hi"
      by auto
    from "1.IH" [OF False this] show ?thesis
      unfolding step by auto
  qed
qed

lemma exponent_down_spec:
  assumes "x < 2 powi (e + 1)" and "lo \<le> e"
  shows "lo \<le> exponent_down lo e x \<and> exponent_down lo e x \<le> e
    \<and> x < 2 powi (exponent_down lo e x + 1)
    \<and> (2 powi (exponent_down lo e x) \<le> x \<or> exponent_down lo e x = lo)"
  using assms
proof (induction lo e x rule: exponent_down.induct)
  case (1 lo e x)
  show ?case
  proof (cases "e \<le> lo \<or> 2 powi e \<le> x")
    case True
    then have "exponent_down lo e x = e"
      by (subst exponent_down.simps) simp
    with True "1.prems" show ?thesis by auto
  next
    case False
    then have step: "exponent_down lo e x = exponent_down lo (e - 1) x"
      by (subst exponent_down.simps) simp
    from False have "x < 2 powi (e - 1 + 1)" and "lo \<le> e - 1"
      by auto
    from "1.IH" [OF False this] show ?thesis
      unfolding step by auto
  qed
qed

lemma float_exponent_spec:
  assumes "emin fmt < 0" and "0 \<le> emax fmt" and "0 < a"
  shows "emin fmt \<le> float_exponent fmt a" and "float_exponent fmt a \<le> emax fmt"
    and "a < 2 powi (emax fmt + 1) \<Longrightarrow> a < 2 powi (float_exponent fmt a + 1)"
    and "2 powi (float_exponent fmt a) \<le> a \<or> float_exponent fmt a = emin fmt"
proof -
  have all: "emin fmt \<le> float_exponent fmt a \<and> float_exponent fmt a \<le> emax fmt
    \<and> (a < 2 powi (emax fmt + 1) \<longrightarrow> a < 2 powi (float_exponent fmt a + 1))
    \<and> (2 powi (float_exponent fmt a) \<le> a \<or> float_exponent fmt a = emin fmt)"
  proof (cases "1 \<le> a")
    case True
    then have "2 powi 0 \<le> a" by simp
    from exponent_up_spec [OF this assms(2)] True assms(1) show ?thesis
      by (auto simp: float_exponent_def)
  next
    case False
    then have "a < 2 powi (- 1 + 1)" by simp
    moreover have "emin fmt \<le> - 1" using assms(1) by simp
    ultimately show ?thesis
      using exponent_down_spec [of a "- 1" "emin fmt"] False assms(2)
      by (auto simp: float_exponent_def)
  qed
  from all show "emin fmt \<le> float_exponent fmt a" by blast
  from all show "float_exponent fmt a \<le> emax fmt" by blast
  from all show "a < 2 powi (emax fmt + 1) \<Longrightarrow> a < 2 powi (float_exponent fmt a + 1)" by blast
  from all show "2 powi (float_exponent fmt a) \<le> a \<or> float_exponent fmt a = emin fmt" by blast
qed

lemma float_exponent_mono:
  assumes "emin fmt < 0" and "0 \<le> emax fmt" and "0 < a" and "a \<le> b"
    and "b < 2 powi (emax fmt + 1)"
  shows "float_exponent fmt a \<le> float_exponent fmt b"
proof (rule ccontr)
  assume "\<not> float_exponent fmt a \<le> float_exponent fmt b"
  then have less: "float_exponent fmt b + 1 \<le> float_exponent fmt a"
    by simp
  have "0 < b" using assms(3,4) by simp
  from less float_exponent_spec(1) [OF assms(1,2) \<open>0 < b\<close>]
  have "float_exponent fmt a \<noteq> emin fmt" by simp
  with float_exponent_spec(4) [OF assms(1-3)] have "2 powi (float_exponent fmt a) \<le> a"
    by blast
  also have "a \<le> b" by fact
  also have "b < 2 powi (float_exponent fmt b + 1)"
    by (rule float_exponent_spec(3) [OF assms(1,2) \<open>0 < b\<close> assms(5)])
  also have "(2::real) powi (float_exponent fmt b + 1) \<le> 2 powi (float_exponent fmt a)"
    using less by (intro power_int_increasing) simp_all
  finally show False by simp
qed

lemma round_half_even_int: "round_half_even (of_int n) = n"
  by (simp add: round_half_even_def)

lemma round_half_even_mono:
  assumes "y \<le> z"
  shows "round_half_even y \<le> round_half_even z"
proof -
  have fl: "\<lfloor>y\<rfloor> \<le> \<lfloor>z\<rfloor>"
    using assms by (rule floor_mono)
  have up: "round_half_even y \<le> \<lfloor>y\<rfloor> + 1" and down: "\<lfloor>z\<rfloor> \<le> round_half_even z"
    by (simp_all add: round_half_even_def Let_def)
  show ?thesis
  proof (cases "\<lfloor>y\<rfloor> = \<lfloor>z\<rfloor>")
    case True
    with assms show ?thesis
      by (simp add: round_half_even_def Let_def)
  next
    case False
    with fl have "\<lfloor>y\<rfloor> + 1 \<le> \<lfloor>z\<rfloor>" by simp
    with up down show ?thesis by linarith
  qed
qed

lemma round_half_even_le: "y \<le> of_int k \<Longrightarrow> round_half_even y \<le> k"
  using round_half_even_mono [of y "of_int k"] by (simp add: round_half_even_int)

lemma round_half_even_ge: "of_int k \<le> y \<Longrightarrow> k \<le> round_half_even y"
  using round_half_even_mono [of "of_int k" y] by (simp add: round_half_even_int)

lemma two_powi_int: "0 \<le> n \<Longrightarrow> (2::real) powi n = of_int (2 ^ nat n)"
  by (simp add: power_int_nonneg_exp)

lemma two_powi_div: "(2::real) powi m / 2 powi n = 2 powi (m - n)"
  by (simp add: power_int_diff)


lemma two_powi_mult: "(2::real) powi m * 2 powi n = 2 powi (m + n)"
  by (rule power_int_add [symmetric]) simp

lemma round_magnitude_normal:
  assumes "0 < a" and "a < 2 powi (emax fmt + 1)"
  shows "round_magnitude fmt a =
     of_int (round_half_even (a / 2 powi (float_exponent fmt a - int (precision fmt) + 1)))
       * 2 powi (float_exponent fmt a - int (precision fmt) + 1)"
  using assms by (simp add: round_magnitude_def Let_def)

lemma round_magnitude_nonneg:
  assumes "0 \<le> a"
  shows "0 \<le> round_magnitude fmt a"
proof -
  have "0 \<le> round_half_even (a / 2 powi (float_exponent fmt a - int (precision fmt) + 1))"
    using assms by (intro round_half_even_ge) simp
  then show ?thesis
    by (simp add: round_magnitude_def Let_def)
qed

lemma round_magnitude_upper:
  assumes ok: "emin fmt < 0" "0 \<le> emax fmt" and a: "0 < a" "a < 2 powi (emax fmt + 1)"
  shows "round_magnitude fmt a \<le> 2 powi (float_exponent fmt a + 1)"
proof -
  let ?E = "float_exponent fmt a"
  let ?Q = "?E - int (precision fmt) + 1"
  have pos: "(0::real) < 2 powi ?Q" by simp
  have "a < 2 powi (?E + 1)"
    by (rule float_exponent_spec(3) [OF ok a])
  then have "a / 2 powi ?Q \<le> 2 powi (?E + 1) / 2 powi ?Q"
    using pos by (simp add: divide_right_mono)
  also have "\<dots> = 2 powi int (precision fmt)"
    by (simp add: two_powi_div)
  also have "\<dots> = of_int (2 ^ precision fmt)"
    by simp
  finally have "round_half_even (a / 2 powi ?Q) \<le> 2 ^ precision fmt"
    by (rule round_half_even_le)
  then have "(of_int (round_half_even (a / 2 powi ?Q)) :: real) \<le> of_int (2 ^ precision fmt)"
    by (simp only: of_int_le_iff)
  then have "of_int (round_half_even (a / 2 powi ?Q)) * 2 powi ?Q
               \<le> (of_int (2 ^ precision fmt) :: real) * 2 powi ?Q"
    using pos by (simp add: mult_right_mono)
  also have "(of_int (2 ^ precision fmt) :: real) * 2 powi ?Q = 2 powi int (precision fmt) * 2 powi ?Q"
    by simp
  also have "\<dots> = 2 powi (int (precision fmt) + ?Q)"
    by (rule two_powi_mult)
  also have "int (precision fmt) + ?Q = ?E + 1"
    by simp
  finally show ?thesis
    by (simp only: round_magnitude_normal [OF a])
qed

lemma round_magnitude_lower:
  assumes prec: "0 < precision fmt" and a: "0 < a" "a < 2 powi (emax fmt + 1)"
    and low: "2 powi (float_exponent fmt a) \<le> a"
  shows "2 powi (float_exponent fmt a) \<le> round_magnitude fmt a"
proof -
  let ?E = "float_exponent fmt a"
  let ?Q = "?E - int (precision fmt) + 1"
  have pos: "(0::real) < 2 powi ?Q" by simp
  have int_pow: "(of_int (2 ^ (precision fmt - 1)) :: real) = 2 powi (int (precision fmt) - 1)"
    using prec by (simp add: power_int_nonneg_exp nat_diff_distrib')
  also have "\<dots> = 2 powi ?E / 2 powi ?Q"
    by (simp add: two_powi_div)
  also have "\<dots> \<le> a / 2 powi ?Q"
    using low pos by (simp add: divide_right_mono)
  finally have "2 ^ (precision fmt - 1) \<le> round_half_even (a / 2 powi ?Q)"
    by (rule round_half_even_ge)
  then have m: "(of_int (2 ^ (precision fmt - 1)) :: real)
                  \<le> of_int (round_half_even (a / 2 powi ?Q))"
    by (simp only: of_int_le_iff)
  have "?E = (int (precision fmt) - 1) + ?Q"
    by simp
  then have "(2::real) powi ?E = 2 powi (int (precision fmt) - 1) * 2 powi ?Q"
    by (simp only: two_powi_mult)
  also have "\<dots> = of_int (2 ^ (precision fmt - 1)) * 2 powi ?Q"
    by (simp only: int_pow)
  also have "\<dots> \<le> of_int (round_half_even (a / 2 powi ?Q)) * 2 powi ?Q"
    using m pos by (rule mult_right_mono [OF _ less_imp_le])
  finally show ?thesis
    by (simp only: round_magnitude_normal [OF a])
qed

lemma round_magnitude_le_top:
  assumes ok: "emin fmt < 0" "0 \<le> emax fmt" and a: "0 \<le> a"
  shows "round_magnitude fmt a \<le> 2 powi (emax fmt + 1)"
proof (cases "a = 0 \<or> 2 powi (emax fmt + 1) \<le> a")
  case True
  then show ?thesis by (auto simp: round_magnitude_def)
next
  case False
  then have a': "0 < a" "a < 2 powi (emax fmt + 1)"
    using a by auto
  have "round_magnitude fmt a \<le> 2 powi (float_exponent fmt a + 1)"
    by (rule round_magnitude_upper [OF ok a'])
  also have "\<dots> \<le> 2 powi (emax fmt + 1)"
    using float_exponent_spec(2) [OF ok a'(1)] by (intro power_int_increasing) simp_all
  finally show ?thesis .
qed

lemma round_magnitude_mono:
  assumes ok: "0 < precision fmt" "emin fmt < 0" "0 \<le> emax fmt"
    and ab: "0 \<le> a" "a \<le> b"
  shows "round_magnitude fmt a \<le> round_magnitude fmt b"
proof (cases "a = 0")
  case True
  then show ?thesis
    using round_magnitude_nonneg [of b fmt] ab by (simp add: round_magnitude_def)
next
  case False
  then have a: "0 < a" and b: "0 < b"
    using ab by auto
  show ?thesis
  proof (cases "2 powi (emax fmt + 1) \<le> b")
    case True
    then have "round_magnitude fmt b = 2 powi (emax fmt + 1)"
      using b by (simp add: round_magnitude_def)
    with round_magnitude_le_top [OF ok(2,3) ab(1)] show ?thesis by simp
  next
    case False
    then have b': "b < 2 powi (emax fmt + 1)" and a': "a < 2 powi (emax fmt + 1)"
      using ab by auto
    let ?Ea = "float_exponent fmt a" and ?Eb = "float_exponent fmt b"
    have le: "?Ea \<le> ?Eb"
      by (rule float_exponent_mono [OF ok(2,3) a ab(2) b'])
    show ?thesis
    proof (cases "?Ea = ?Eb")
      case True
      let ?U = "(2::real) powi (?Eb - int (precision fmt) + 1)"
      have "a / ?U \<le> b / ?U"
        using ab(2) by (simp add: divide_right_mono)
      then have "round_half_even (a / ?U) \<le> round_half_even (b / ?U)"
        by (rule round_half_even_mono)
      then have "(of_int (round_half_even (a / ?U)) :: real) * ?U
                   \<le> of_int (round_half_even (b / ?U)) * ?U"
        by (simp add: mult_right_mono)
      then show ?thesis
        by (simp add: round_magnitude_normal [OF a a'] round_magnitude_normal [OF b b'] True)
    next
      case False
      with le have less: "?Ea + 1 \<le> ?Eb" by simp
      with float_exponent_spec(1) [OF ok(2,3) a] have "?Eb \<noteq> emin fmt" by simp
      with float_exponent_spec(4) [OF ok(2,3) b] have low: "2 powi ?Eb \<le> b" by blast
      have "round_magnitude fmt a \<le> 2 powi (?Ea + 1)"
        by (rule round_magnitude_upper [OF ok(2,3) a a'])
      also have "(2::real) powi (?Ea + 1) \<le> 2 powi ?Eb"
        using less by (intro power_int_increasing) simp_all
      also have "\<dots> \<le> round_magnitude fmt b"
        by (rule round_magnitude_lower [OF ok(1) b b' low])
      finally show ?thesis .
    qed
  qed
qed


lemma round_magnitude_top:
  assumes "2 powi (emax fmt + 1) \<le> a"
  shows "round_magnitude fmt a = 2 powi (emax fmt + 1)"
proof -
  have "(0::real) < 2 powi (emax fmt + 1)" by simp
  with assms have "a \<noteq> 0" by linarith
  with assms show ?thesis by (simp add: round_magnitude_def)
qed

lemma round_magnitude_zero: "round_magnitude fmt 0 = 0"
  by (simp add: round_magnitude_def)

lemma round_magnitude_idem:
  assumes ok: "0 < precision fmt" "emin fmt < 0" "0 \<le> emax fmt" and a: "0 \<le> a"
  shows "round_magnitude fmt (round_magnitude fmt a) = round_magnitude fmt a"
proof (cases "a = 0 \<or> 2 powi (emax fmt + 1) \<le> a")
  case True
  then show ?thesis by (auto simp: round_magnitude_def)
next
  case False
  then have a': "0 < a" "a < 2 powi (emax fmt + 1)"
    using a by auto
  let ?E = "float_exponent fmt a"
  let ?Q = "?E - int (precision fmt) + 1"
  let ?m = "round_half_even (a / 2 powi ?Q)"
  let ?r = "round_magnitude fmt a"
  have r: "?r = of_int ?m * 2 powi ?Q"
    by (rule round_magnitude_normal [OF a'])
  have r_nonneg: "0 \<le> ?r"
    by (rule round_magnitude_nonneg [OF a])
  have r_up: "?r \<le> 2 powi (?E + 1)"
    by (rule round_magnitude_upper [OF ok(2,3) a'])
  show ?thesis
  proof (cases "?r = 0 \<or> 2 powi (emax fmt + 1) \<le> ?r")
    case True
    then show ?thesis
    proof
      assume "?r = 0"
      then show ?thesis by (simp only: round_magnitude_zero)
    next
      assume top: "2 powi (emax fmt + 1) \<le> ?r"
      then have "round_magnitude fmt ?r = 2 powi (emax fmt + 1)"
        by (rule round_magnitude_top)
      moreover have "?r \<le> 2 powi (emax fmt + 1)"
        by (rule round_magnitude_le_top [OF ok(2,3) a])
      ultimately show ?thesis using top by simp
    qed
  next
    case False
    then have r': "0 < ?r" "?r < 2 powi (emax fmt + 1)"
      using r_nonneg by auto
    let ?E' = "float_exponent fmt ?r"
    let ?Q' = "?E' - int (precision fmt) + 1"
    have "\<exists>k. ?r / 2 powi ?Q' = of_int k"
    proof (cases "?E' \<le> ?E")
      case True
      have "?r / 2 powi ?Q' = of_int ?m * (2 powi ?Q / 2 powi ?Q')"
        by (simp add: r)
      also have "2 powi ?Q / 2 powi ?Q' = (2::real) powi (?E - ?E')"
        by (simp add: two_powi_div)
      also have "\<dots> = of_int (2 ^ nat (?E - ?E'))"
        using True by (intro two_powi_int) simp
      finally have "?r / 2 powi ?Q' = of_int (?m * 2 ^ nat (?E - ?E'))"
        by simp
      then show ?thesis ..
    next
      case False
      then have less: "?E + 1 \<le> ?E'" by simp
      with float_exponent_spec(1) [OF ok(2,3) a'(1)] have "?E' \<noteq> emin fmt" by simp
      with float_exponent_spec(4) [OF ok(2,3) r'(1)] have "2 powi ?E' \<le> ?r" by blast
      moreover have "(2::real) powi (?E + 1) \<le> 2 powi ?E'"
        using less by (intro power_int_increasing) simp_all
      ultimately have eq: "?r = 2 powi ?E'"
        using r_up by linarith
      have "?r / 2 powi ?Q' = 2 powi ?E' / 2 powi ?Q'"
        by (simp only: eq [symmetric])
      also have "\<dots> = 2 powi (int (precision fmt) - 1)"
        by (simp add: two_powi_div)
      also have "\<dots> = of_int (2 ^ nat (int (precision fmt) - 1))"
        using ok(1) by (intro two_powi_int) simp
      finally show ?thesis ..
    qed
    then obtain k where k: "?r / 2 powi ?Q' = of_int k" ..
    have "round_magnitude fmt ?r = of_int (round_half_even (?r / 2 powi ?Q')) * 2 powi ?Q'"
      by (rule round_magnitude_normal [OF r'])
    also have "\<dots> = (?r / 2 powi ?Q') * 2 powi ?Q'"
      by (simp only: k round_half_even_int)
    also have "\<dots> = ?r"
      by simp
    finally show ?thesis .
  qed
qed

lemma round_to_nonneg: "0 \<le> x \<Longrightarrow> round_to fmt x = round_magnitude fmt x"
  by (simp add: round_to_def)

lemma binary32_ok: "0 < precision binary32" "emin binary32 < 0" "0 \<le> emax binary32"
  by (simp_all add: binary32_def)

lemma binary64_ok: "0 < precision binary64" "emin binary64 < 0" "0 \<le> emax binary64"
  by (simp_all add: binary64_def)



lemma round_to_mono_nonneg:
  assumes "0 < precision fmt" "emin fmt < 0" "0 \<le> emax fmt" and "0 \<le> a" "a \<le> b"
  shows "round_to fmt a \<le> round_to fmt b"
  using round_magnitude_mono [OF assms] assms(4,5) by (simp add: round_to_nonneg)

lemma round_to_idem_nonneg:
  assumes "0 < precision fmt" "emin fmt < 0" "0 \<le> emax fmt" and "0 \<le> a"
  shows "round_to fmt (round_to fmt a) = round_to fmt a"
  using round_magnitude_idem [OF assms] round_magnitude_nonneg [OF assms(4), of fmt] assms(4)
  by (simp add: round_to_nonneg)

lemma round_to_ge_zero: "0 \<le> a \<Longrightarrow> 0 \<le> round_to fmt a"
  by (simp add: round_to_nonneg round_magnitude_nonneg)

section \<open>The binary search and the running sums\<close>

lemma lower_bound_spec:
  assumes "sorted bd" and "start \<le> stop" and "stop \<le> length bd"
    and "\<forall>i < start. bd ! i < v"
    and "\<forall>i. stop \<le> i \<and> i < length bd \<longrightarrow> \<not> bd ! i < v"
  shows "start \<le> lower_bound start stop v bd \<and> lower_bound start stop v bd \<le> stop
    \<and> (\<forall>i < lower_bound start stop v bd. bd ! i < v)
    \<and> (\<forall>i. lower_bound start stop v bd \<le> i \<and> i < length bd \<longrightarrow> \<not> bd ! i < v)"
  using assms
proof (induction start stop v bd rule: lower_bound.induct)
  case (1 start stop v bd)
  let ?mid = "start + (stop - start) div 2"
  show ?case
  proof (cases "start < stop")
    case False
    then have "lower_bound start stop v bd = start"
      by (rule lower_bound_done)
    with False "1.prems" show ?thesis by auto
  next
    case True
    then have mid: "start \<le> ?mid" "?mid < stop"
      by simp_all
    show ?thesis
    proof (cases "bd ! ?mid < v")
      case below: True
      have step: "lower_bound start stop v bd = lower_bound (?mid + 1) stop v bd"
        using True below by (rule lower_bound_right)
      have "\<forall>i < ?mid + 1. bd ! i < v"
      proof (intro allI impI)
        fix i assume "i < ?mid + 1"
        then have "bd ! i \<le> bd ! ?mid"
          using "1.prems"(1,3) mid by (intro sorted_nth_mono) simp_all
        with below show "bd ! i < v" by simp
      qed
      from "1.IH"(1) [OF True refl below "1.prems"(1) _ "1.prems"(3) this "1.prems"(5)] mid
      show ?thesis
        unfolding step by auto
    next
      case above: False
      have step: "lower_bound start stop v bd = lower_bound start ?mid v bd"
        using True above by (rule lower_bound_left)
      have "\<forall>i. ?mid \<le> i \<and> i < length bd \<longrightarrow> \<not> bd ! i < v"
      proof (intro allI impI)
        fix i assume "?mid \<le> i \<and> i < length bd"
        then have "bd ! ?mid \<le> bd ! i"
          using "1.prems"(1) by (intro sorted_nth_mono) simp_all
        with above show "\<not> bd ! i < v" by simp
      qed
      from "1.IH"(2) [OF True refl above "1.prems"(1) mid(1) _ "1.prems"(4) this] mid "1.prems"(3)
      show ?thesis
        unfolding step by auto
    qed
  qed
qed

lemma searchsorted_spec:
  assumes "sorted seq"
  shows "searchsorted seq v \<le> length seq"
    and "\<forall>i < searchsorted seq v. seq ! i < round_to binary32 v"
    and "\<forall>i. searchsorted seq v \<le> i \<and> i < length seq \<longrightarrow> round_to binary32 v \<le> seq ! i"
  using lower_bound_spec [OF assms, of 0 "length seq" "round_to binary32 v"]
  by (auto simp: searchsorted_def not_less)

lemma length_cumsum_from: "length (cumsum_from acc xs) = length xs"
  by (induction xs arbitrary: acc) simp_all

lemma length_cumsum: "length (cumsum xs) = length xs"
  by (simp add: cumsum_def length_cumsum_from)

lemma cumsum_from_sorted:
  assumes "0 \<le> acc" and "round_to binary64 acc = acc" and "\<forall>x \<in> set xs. 0 \<le> x"
  shows "sorted (cumsum_from acc xs)
    \<and> (\<forall>c \<in> set (cumsum_from acc xs). round_to binary32 acc \<le> c)"
  using assms
proof (induction xs arbitrary: acc)
  case Nil
  then show ?case by simp
next
  case (Cons x xs)
  let ?acc = "round_to binary64 (acc + x)"
  have x: "0 \<le> x" and rest: "\<forall>y \<in> set xs. 0 \<le> y"
    using Cons.prems(3) by simp_all
  have sum: "0 \<le> acc + x" "acc \<le> acc + x"
    using Cons.prems(1) x by simp_all
  have "round_to binary64 acc \<le> ?acc"
    by (rule round_to_mono_nonneg [OF binary64_ok Cons.prems(1) sum(2)])
  then have grow: "acc \<le> ?acc"
    by (simp only: Cons.prems(2))
  then have nonneg: "0 \<le> ?acc"
    using Cons.prems(1) by simp
  have idem: "round_to binary64 ?acc = ?acc"
    by (rule round_to_idem_nonneg [OF binary64_ok sum(1)])
  have head: "round_to binary32 acc \<le> round_to binary32 ?acc"
    by (rule round_to_mono_nonneg [OF binary32_ok Cons.prems(1) grow])
  from Cons.IH [OF nonneg idem rest]
  have tl: "sorted (cumsum_from ?acc xs)"
    and ge: "\<forall>c \<in> set (cumsum_from ?acc xs). round_to binary32 ?acc \<le> c"
    by blast+
  from tl ge head show ?case
    by (auto simp: Let_def)
qed

lemma round_to_zero: "round_to fmt 0 = 0"
  by (simp add: round_to_def round_magnitude_def)

lemma cumsum_sorted:
  assumes "\<forall>x \<in> set xs. 0 \<le> x"
  shows "sorted (cumsum xs)"
  using cumsum_from_sorted [of 0 xs] assms by (simp add: cumsum_def round_to_zero)

lemma sort_descending_sorted: "sorted_wrt (\<lambda>a b. b \<le> a) (sort_descending xs)"
  by (simp add: sort_descending_def sorted_wrt_rev)

lemma mset_sort_descending: "mset (sort_descending xs) = mset xs"
  by (simp add: sort_descending_def)

lemma length_sort_descending: "length (sort_descending xs) = length xs"
  by (simp add: sort_descending_def)

lemma set_sort_descending: "set (sort_descending xs) = set xs"
  by (simp add: sort_descending_def)


lemma last_take_Suc:
  assumes "xs \<noteq> []"
  shows "last (take (Suc m) xs) = xs ! min m (length xs - 1)"
proof (cases "m < length xs")
  case True
  then have "take (Suc m) xs = take m xs @ [xs ! m]"
    by (rule take_Suc_conv_app_nth)
  moreover have "min m (length xs - 1) = m"
    using True by linarith
  ultimately show ?thesis by simp
next
  case False
  then have "take (Suc m) xs = xs" by simp
  moreover have "min m (length xs - 1) = length xs - 1"
    using False by linarith
  moreover have "last xs = xs ! (length xs - 1)"
    using assms by (rule last_conv_nth)
  ultimately show ?thesis
    by simp
qed

lemma is_distribution_flat_eval:
  assumes ne: "probs \<noteq> []"
    and m: "searchsorted (cumsum (sort_descending probs)) (cumulative_prob_threshold st) = m"
    and nz: "round_to binary64 (sort_descending probs ! min m (length probs - 1)
               + round_to binary64 (1 / 10 ^ 8)) \<noteq> 0"
  shows "is_distribution_flat st probs =
     Inr (if Suc m < 2 then False
          else round_to binary64
                 (sort_descending probs ! 0
                    / round_to binary64 (sort_descending probs ! min m (length probs - 1)
                        + round_to binary64 (1 / 10 ^ 8)))
                 \<le> ratio_threshold st)"
proof -
  let ?s = "sort_descending probs"
  have s_ne: "?s \<noteq> []"
    using ne length_sort_descending [of probs] by auto
  then obtain x xs where s_cons: "?s = x # xs"
    by (cases ?s) auto
  have tk: "take (Suc m) ?s = x # take m xs"
    by (simp add: s_cons)
  have "last (take (Suc m) ?s) = ?s ! min m (length ?s - 1)"
    by (rule last_take_Suc [OF s_ne])
  then have lst: "last (x # take m xs) = ?s ! min m (length probs - 1)"
    unfolding tk by (simp only: length_sort_descending)
  have hd: "?s ! 0 = x"
    by (simp add: s_cons)
  have "is_distribution_flat st probs =
     (if Suc m < 2 then Inr False
      else if round_to binary64 (last (x # take m xs) + round_to binary64 (1 / 10 ^ 8)) = 0
           then Inl ZeroDivisionError
      else Inr (round_to binary64
                  (x / round_to binary64 (last (x # take m xs) + round_to binary64 (1 / 10 ^ 8)))
                  \<le> ratio_threshold st))"
    unfolding is_distribution_flat_def Let_def m Suc_eq_plus1 [symmetric] tk
    by (simp only: list.case)
  also have "\<dots> = Inr (if Suc m < 2 then False
          else round_to binary64
                 (?s ! 0 / round_to binary64 (?s ! min m (length probs - 1)
                        + round_to binary64 (1 / 10 ^ 8)))
                 \<le> ratio_threshold st)"
    unfolding lst hd using nz by (simp only: if_False if_distrib [of Inr] cong: if_cong)
  finally show ?thesis .
qed

lemma denominator_positive:
  assumes "0 \<le> p"
  shows "0 < round_to binary64 (p + round_to binary64 (1 / 10 ^ 8))"
proof -
  let ?eps = "round_to binary64 (1 / 10 ^ 8)"
  have eps: "0 < ?eps"
    unfolding epsilon64 by simp
  have "round_to binary64 ?eps = ?eps"
    by (rule round_to_idem_nonneg [OF binary64_ok]) simp
  moreover have "round_to binary64 ?eps \<le> round_to binary64 (p + ?eps)"
    using eps assms by (intro round_to_mono_nonneg [OF binary64_ok]) simp_all
  ultimately show ?thesis
    using eps by simp
qed

lemma is_distribution_flat_general:
  assumes ne: "probs \<noteq> []" and nonneg: "\<forall>p \<in> set probs. 0 \<le> p"
  shows "\<exists>k. k = searchsorted (cumsum (sort_descending probs)) (cumulative_prob_threshold st) + 1
    \<and> 1 \<le> k \<and> k \<le> length probs + 1
    \<and> (\<forall>j. 1 \<le> j \<and> j < k \<longrightarrow>
           cumsum (sort_descending probs) ! (j - 1)
             < round_to binary32 (cumulative_prob_threshold st))
    \<and> (k \<le> length probs \<longrightarrow>
           round_to binary32 (cumulative_prob_threshold st)
             \<le> cumsum (sort_descending probs) ! (k - 1))
    \<and> is_distribution_flat st probs =
        Inr (if k < 2 then False
             else round_to binary64
                    (sort_descending probs ! 0
                       / round_to binary64 (sort_descending probs ! (min k (length probs) - 1)
                           + round_to binary64 (1 / 10 ^ 8)))
                    \<le> ratio_threshold st)"
proof -
  let ?thr = "cumulative_prob_threshold st"
  let ?s = "sort_descending probs"
  let ?c = "cumsum ?s"
  let ?m = "searchsorted ?c ?thr"
  let ?n = "length probs"
  have lenc: "length ?c = ?n"
    by (simp add: length_cumsum length_sort_descending)
  have pos: "0 < ?n"
    using ne by simp
  have "\<forall>x \<in> set ?s. 0 \<le> x"
    using nonneg by (simp add: set_sort_descending)
  then have srt: "sorted ?c"
    by (rule cumsum_sorted)
  note sp = searchsorted_spec [OF srt, of ?thr]
  have m_le: "?m \<le> ?n"
    using sp(1) lenc by simp
  have before: "cumsum ?s ! (j - 1) < round_to binary32 ?thr" if "1 \<le> j \<and> j < Suc ?m" for j
  proof -
    from that have "j - 1 < ?m" by auto
    with sp(2) show ?thesis by blast
  qed
  have reach: "round_to binary32 ?thr \<le> ?c ! (Suc ?m - 1)" if "Suc ?m \<le> ?n"
    using sp(3) that lenc by simp
  have "min ?m (?n - 1) < ?n"
    using pos by linarith
  then have idx: "min ?m (?n - 1) < length ?s"
    by (simp only: length_sort_descending)
  then have "?s ! min ?m (?n - 1) \<in> set ?s"
    by (rule nth_mem)
  then have "0 \<le> ?s ! min ?m (?n - 1)"
    using nonneg by (simp add: set_sort_descending)
  then have "0 < round_to binary64 (?s ! min ?m (?n - 1) + round_to binary64 (1 / 10 ^ 8))"
    by (rule denominator_positive)
  then have nz: "round_to binary64 (?s ! min ?m (?n - 1) + round_to binary64 (1 / 10 ^ 8)) \<noteq> 0"
    by simp
  have bottom: "min (Suc ?m) ?n - 1 = min ?m (?n - 1)"
    using pos by linarith
  note verdict = is_distribution_flat_eval [OF ne refl nz]
  show ?thesis
  proof (intro exI [of _ "Suc ?m"] conjI allI impI)
    show "Suc ?m = ?m + 1" by simp
    show "1 \<le> Suc ?m" by simp
    show "Suc ?m \<le> ?n + 1" using m_le by simp
    show "cumsum ?s ! (j - 1) < round_to binary32 ?thr" if "1 \<le> j \<and> j < Suc ?m" for j
      using that by (rule before)
    show "round_to binary32 ?thr \<le> ?c ! (Suc ?m - 1)" if "Suc ?m \<le> ?n"
      using that by (rule reach)
    show "is_distribution_flat st probs =
        Inr (if Suc ?m < 2 then False
             else round_to binary64
                    (?s ! 0 / round_to binary64 (?s ! (min (Suc ?m) ?n - 1)
                           + round_to binary64 (1 / 10 ^ 8)))
                    \<le> ratio_threshold st)"
      using verdict by (simp only: bottom)
  qed
qed

section \<open>Properties of the hooks\<close>

lemma pop_while_stop:
  "\<not> f < cur \<Longrightarrow> pop_while f cur toks = Inr (toks, cur)"
  by (subst pop_while.simps) simp

lemma pop_while_pop:
  "f < cur \<Longrightarrow> toks \<noteq> [] \<Longrightarrow> pop_while f cur toks = pop_while f (cur - 1) (butlast toks)"
  by (subst pop_while.simps) simp

lemma pop_while_length:
  "pop_while f (length toks) toks =
     Inr (if f < length toks then take f toks else toks, min f (length toks))"
proof (induction "length toks" arbitrary: toks)
  case 0
  then show ?case by (simp add: pop_while_stop)
next
  case (Suc n)
  then have ne: "toks \<noteq> []" and len: "n = length (butlast toks)"
    by auto
  show ?case
  proof (cases "f < length toks")
    case False
    then show ?thesis by (simp add: pop_while_stop min_def)
  next
    case True
    have "pop_while f (length toks) toks = pop_while f (length (butlast toks)) (butlast toks)"
      using True ne by (simp add: pop_while_pop)
    also have "\<dots> = Inr (if f < length (butlast toks) then take f (butlast toks)
                             else butlast toks, min f (length (butlast toks)))"
      by (rule Suc.hyps(1) [OF len])
    also have "\<dots> = Inr (take f toks, f)"
    proof (cases "f < length (butlast toks)")
      case True
      then show ?thesis by (simp add: take_butlast min_def)
    next
      case False
      with \<open>f < length toks\<close> have "f = length toks - 1" by simp
      then show ?thesis by (simp add: butlast_conv_take)
    qed
    finally show ?thesis using True by (simp add: min_def)
  qed
qed

text \<open>
  C4. For a non-empty token sequence and a distribution with an argmax that differs
  from the last token, \<^verbatim>\<open>on_next_token\<close> returns normally, the keep index is the
  length of the sequence minus one and the pending position is the pair of that keep
  index and the argmax token; the other attributes are untouched.
\<close>

theorem on_next_token_divergence:
  assumes "toks \<noteq> []" and "argmax probs = Inr a" and "last toks \<noteq> int a"
  shows "\<exists>st'. on_next_token st toks probs = Inr st'
           \<and> int (keep_index st') = int (length toks) - 1
           \<and> backtrack_position st' = Some (keep_index st', a)
           \<and> is_flat st' = is_flat st
           \<and> cumulative_prob_threshold st' = cumulative_prob_threshold st
           \<and> ratio_threshold st' = ratio_threshold st"
  using assms by (cases toks) (simp_all add: on_next_token_def)

theorem on_next_token_divergence_witness:
  "[5, 9, 3] \<noteq> ([] :: int list)
   \<and> argmax [1 / 10, 2 / 10, 7 / 10] = Inr 2
   \<and> last [5, 9, 3 :: int] \<noteq> int 2
   \<and> (\<exists>st'. on_next_token (init (35 / 100) (15 / 10)) [5, 9, 3] [1 / 10, 2 / 10, 7 / 10] = Inr st'
        \<and> int (keep_index st') = int (length [5, 9, 3 :: int]) - 1
        \<and> backtrack_position st' = Some (keep_index st', 2))"
proof -
  have h1: "[5, 9, 3] \<noteq> ([] :: int list)"
    by simp
  have h2: "argmax [1 / 10, 2 / 10, 7 / 10] = Inr 2"
    by simp
  have h3: "last [5, 9, 3 :: int] \<noteq> int 2"
    by simp
  show ?thesis
    using h1 h2 h3 on_next_token_divergence [OF h1 h2 h3, of "init (35 / 100) (15 / 10)"]
    by blast
qed

lemma on_logits_idle:
  "backtrack_position st = None \<or> \<not> is_flat st \<Longrightarrow> on_logits st lg = Inr (st, lg)"
  by (auto simp: on_logits_def split: option.splits)

lemma on_logits_out_of_range:
  "backtrack_position st = Some (f, tok) \<Longrightarrow> is_flat st \<Longrightarrow> \<not> tok < lg_vocab lg
   \<Longrightarrow> on_logits st lg = Inl IndexError"
  by (simp add: on_logits_def)

lemma on_logits_fires:
  "backtrack_position st = Some (f, tok) \<Longrightarrow> is_flat st \<Longrightarrow> tok < lg_vocab lg
   \<Longrightarrow> on_logits st lg =
         Inr (st\<lparr>backtrack_position := None\<rparr>,
              lg\<lparr>lg_rows := map (\<lambda>r. r[tok := finfo_max (lg_dtype lg)]) (lg_rows lg)\<rparr>)"
  by (simp add: on_logits_def)

lemma forced_entry:
  assumes "logits_wf lg" and "i < length (lg_rows lg)" and "j < lg_vocab lg"
  shows "map (\<lambda>r. r[tok := v]) (lg_rows lg) ! i ! j = (if j = tok then v else lg_rows lg ! i ! j)"
proof -
  have "length (lg_rows lg ! i) = lg_vocab lg"
    using assms(1,2) by (simp add: logits_wf_def list_all_length)
  then show ?thesis
    using assms(2,3) by (simp add: nth_list_update)
qed

text \<open>
  C5. With a position pending and the last verdict flat, \<^verbatim>\<open>on_logits\<close> (on logits
  whose vocabulary axis holds the recorded token) sets the recorded token's logit to
  the largest finite value of the logits' element type in every row, leaves every other
  entry, the shape and the element type as they were, and clears the position, so that
  a second \<^verbatim>\<open>on_logits\<close> call right after it returns its logits unchanged. With no
  position pending or a verdict that is not flat, \<^verbatim>\<open>on_logits\<close> returns the state
  and the logits unchanged.
\<close>

theorem on_logits_single_use:
  "(backtrack_position st = None \<or> \<not> is_flat st \<longrightarrow> on_logits st lg = Inr (st, lg))
   \<and> (\<forall>f tok. backtrack_position st = Some (f, tok) \<and> is_flat st
                 \<and> tok < lg_vocab lg \<and> logits_wf lg \<longrightarrow>
         (\<exists>st' lg'. on_logits st lg = Inr (st', lg')
            \<and> backtrack_position st' = None
            \<and> keep_index st' = keep_index st \<and> is_flat st' = is_flat st
            \<and> lg_dtype lg' = lg_dtype lg \<and> lg_vocab lg' = lg_vocab lg
            \<and> length (lg_rows lg') = length (lg_rows lg) \<and> logits_wf lg'
            \<and> (\<forall>i < length (lg_rows lg). \<forall>j < lg_vocab lg.
                  lg_rows lg' ! i ! j =
                    (if j = tok then finfo_max (lg_dtype lg) else lg_rows lg ! i ! j))
            \<and> (\<forall>lg2. on_logits st' lg2 = Inr (st', lg2))))"
proof (intro conjI allI impI)
  assume "backtrack_position st = None \<or> \<not> is_flat st"
  then show "on_logits st lg = Inr (st, lg)"
    by (rule on_logits_idle)
next
  fix f tok
  assume h: "backtrack_position st = Some (f, tok) \<and> is_flat st
               \<and> tok < lg_vocab lg \<and> logits_wf lg"
  let ?st = "st\<lparr>backtrack_position := None\<rparr>"
  let ?lg = "lg\<lparr>lg_rows := map (\<lambda>r. r[tok := finfo_max (lg_dtype lg)]) (lg_rows lg)\<rparr>"
  have run: "on_logits st lg = Inr (?st, ?lg)"
    using h by (simp add: on_logits_fires)
  have wf: "logits_wf ?lg"
    using h by (simp add: logits_wf_def list_all_length)
  have entries: "\<forall>i < length (lg_rows lg). \<forall>j < lg_vocab lg.
      lg_rows ?lg ! i ! j = (if j = tok then finfo_max (lg_dtype lg) else lg_rows lg ! i ! j)"
    using h forced_entry [of lg] by simp
  have again: "\<forall>lg2. on_logits ?st lg2 = Inr (?st, lg2)"
    by (simp add: on_logits_idle)
  show "\<exists>st' lg'. on_logits st lg = Inr (st', lg')
            \<and> backtrack_position st' = None
            \<and> keep_index st' = keep_index st \<and> is_flat st' = is_flat st
            \<and> lg_dtype lg' = lg_dtype lg \<and> lg_vocab lg' = lg_vocab lg
            \<and> length (lg_rows lg') = length (lg_rows lg) \<and> logits_wf lg'
            \<and> (\<forall>i < length (lg_rows lg). \<forall>j < lg_vocab lg.
                  lg_rows lg' ! i ! j =
                    (if j = tok then finfo_max (lg_dtype lg) else lg_rows lg ! i ! j))
            \<and> (\<forall>lg2. on_logits st' lg2 = Inr (st', lg2))"
    apply (rule exI [of _ ?st], rule exI [of _ ?lg])
    using run wf entries again by simp
qed

theorem on_logits_single_use_witness:
  "backtrack_position (default_state True (Some (2, 1)) 2) = Some (2, 1) \<and> is_flat (default_state True (Some (2, 1)) 2) \<and> 1 < lg_vocab logits3 \<and> logits_wf logits3
   \<and> (\<exists>st' lg'. on_logits (default_state True (Some (2, 1)) 2) logits3 = Inr (st', lg')
         \<and> backtrack_position st' = None
         \<and> lg_rows lg' ! 0 ! 0 = 1 \<and> lg_rows lg' ! 0 ! 1 = 65504 \<and> lg_rows lg' ! 0 ! 2 = 3
         \<and> lg_rows lg' ! 1 ! 0 = 4 \<and> lg_rows lg' ! 1 ! 1 = 65504 \<and> lg_rows lg' ! 1 ! 2 = 6
         \<and> on_logits st' lg' = Inr (st', lg'))
   \<and> backtrack_position (init (35 / 100) (15 / 10)) = None
   \<and> on_logits (init (35 / 100) (15 / 10)) logits3 = Inr (init (35 / 100) (15 / 10), logits3)"
proof -
  have h: "backtrack_position (default_state True (Some (2, 1)) 2) = Some (2, 1) \<and> is_flat (default_state True (Some (2, 1)) 2) \<and> 1 < lg_vocab logits3 \<and> logits_wf logits3"
    by (simp add: default_state_def logits3_def logits_wf_def)
  have n: "backtrack_position (init (35 / 100) (15 / 10)) = None"
    by (simp add: init_def)
  from on_logits_single_use [of "default_state True (Some (2, 1)) 2" logits3] h
  obtain st' lg' where r: "on_logits (default_state True (Some (2, 1)) 2) logits3 = Inr (st', lg')" "backtrack_position st' = None"
     "\<forall>i < length (lg_rows logits3). \<forall>j < lg_vocab logits3.
                  lg_rows lg' ! i ! j =
                    (if j = 1 then finfo_max (lg_dtype logits3) else lg_rows logits3 ! i ! j)"
     "\<forall>lg2. on_logits st' lg2 = Inr (st', lg2)"
    by blast
  have e: "lg_rows lg' ! 0 ! 0 = 1 \<and> lg_rows lg' ! 0 ! 1 = 65504 \<and> lg_rows lg' ! 0 ! 2 = 3
         \<and> lg_rows lg' ! 1 ! 0 = 4 \<and> lg_rows lg' ! 1 ! 1 = 65504 \<and> lg_rows lg' ! 1 ! 2 = 6"
    using r(3) by (simp add: logits3_def)
  have idle: "on_logits (init (35 / 100) (15 / 10)) logits3 = Inr (init (35 / 100) (15 / 10), logits3)"
    using on_logits_single_use [of "init (35 / 100) (15 / 10)" logits3] n by blast
  show ?thesis
    using h n r(1,2,4) e idle by blast
qed


section \<open>Properties of backtrack\<close>

lemma backtrack_idle:
  "\<not> is_flat st \<or> backtrack_position st = None \<Longrightarrow> backtrack st toks pkv = Inr (st, toks, pkv)"
  by (auto simp: backtrack_def split: option.splits)

lemma backtrack_fires:
  assumes "backtrack_position st = Some (f, tok)" and "is_flat st"
  shows "backtrack st toks pkv =
     Inr (st, (if f < length toks then take f toks else toks),
          (case pkv of
             None \<Rightarrow> None
           | Some [] \<Rightarrow> Some []
           | Some (p # ps) \<Rightarrow>
               Some (map (map (slice_layer (int (min f (length toks)) - int (length toks))))
                       (p # ps))))"
  using assms by (simp add: backtrack_def pop_while_length Let_def)

lemma backtrack_tokens:
  assumes "backtrack_position st = Some (f, tok)" and "is_flat st"
  shows "\<exists>pkv'. backtrack st toks pkv = Inr (st, take f toks, pkv')"
  using backtrack_fires [OF assms, of toks pkv] by auto


lemma slice_to_zero: "slice_to 0 sq = []"
  by (simp add: slice_to_def)





section \<open>The scenario distributions\<close>

lemma flat7: "is_distribution_flat (default_state b pos k) probs_flat7 = Inr True"
  by (simp add: flat_eval float_eval probs_flat7_def default_state_def)

lemma argmax7: "argmax probs_flat7 = Inr 7"
  by (simp add: float_eval probs_flat7_def)

lemma peaked: "is_distribution_flat (default_state b pos k) probs_peaked = Inr False"
  by (simp add: flat_eval float_eval probs_peaked_def default_state_def)

lemma scen_b: "is_distribution_flat (default_state b pos k) probs_scenario_b = Inr True"
  by (simp add: flat_eval float_eval probs_scenario_b_def default_state_def)

section \<open>Warranted and unwarranted backtrack calls\<close>

text \<open>
  C9. With a verdict that is not flat or with no position pending, \<^verbatim>\<open>backtrack\<close>
  returns the strategy, the tokens and the cache unchanged. With \<^verbatim>\<open>None\<close> as the
  cache it never raises and returns \<^verbatim>\<open>None\<close> as the cache, and when the call is
  warranted the returned tokens are the first \<^verbatim>\<open>f\<close> tokens of the sequence.
\<close>

theorem backtrack_unwarranted_or_no_cache:
  "(\<not> is_flat st \<or> backtrack_position st = None
      \<longrightarrow> backtrack st toks pkv = Inr (st, toks, pkv))
   \<and> (\<exists>toks'. backtrack st toks None = Inr (st, toks', None)
         \<and> (\<forall>f tok. backtrack_position st = Some (f, tok) \<and> is_flat st
               \<longrightarrow> toks' = take f toks \<and> length toks' = min f (length toks)))"
proof (intro conjI impI)
  assume "\<not> is_flat st \<or> backtrack_position st = None"
  then show "backtrack st toks pkv = Inr (st, toks, pkv)"
    by (rule backtrack_idle)
next
  show "\<exists>toks'. backtrack st toks None = Inr (st, toks', None)
         \<and> (\<forall>f tok. backtrack_position st = Some (f, tok) \<and> is_flat st
               \<longrightarrow> toks' = take f toks \<and> length toks' = min f (length toks))"
  proof (cases "is_flat st \<and> backtrack_position st \<noteq> None")
    case False
    then have "backtrack st toks None = Inr (st, toks, None)"
      by (intro backtrack_idle) blast
    with False show ?thesis by auto
  next
    case True
    then obtain f tok where pos: "backtrack_position st = Some (f, tok)" and flat: "is_flat st"
      by auto
    have "backtrack st toks None = Inr (st, take f toks, None)"
      using backtrack_fires [OF pos flat, of toks None] by auto
    with pos show ?thesis by auto
  qed
qed

theorem backtrack_unwarranted_or_no_cache_witness:
  "(\<not> is_flat (default_state False (Some (2, 7)) 2)
    \<and> backtrack (default_state False (Some (2, 7)) 2) [5, 9, 2] (Some (cache_of [[1, 2], [3, 4], [5, 6]]))
        = Inr (default_state False (Some (2, 7)) 2, [5, 9, 2], Some (cache_of [[1, 2], [3, 4], [5, 6]])))
   \<and> (backtrack_position (default_state True None 2) = None
    \<and> backtrack (default_state True None 2) [5, 9, 2] (Some (cache_of [[1, 2], [3, 4], [5, 6]]))
        = Inr (default_state True None 2, [5, 9, 2], Some (cache_of [[1, 2], [3, 4], [5, 6]])))
   \<and> (backtrack_position (default_state True (Some (2, 7)) 2) = Some (2, 7)
    \<and> is_flat (default_state True (Some (2, 7)) 2)
    \<and> backtrack (default_state True (Some (2, 7)) 2) [5, 9, 2] None
        = Inr (default_state True (Some (2, 7)) 2, [5, 9], None))"
proof -
  let ?c = "Some (cache_of [[1, 2], [3, 4], [5, 6]])"
  have a: "\<not> is_flat (default_state False (Some (2, 7)) 2)"
    and b: "backtrack_position (default_state True None 2) = None"
    and c: "backtrack_position (default_state True (Some (2, 7)) 2) = Some (2, 7)"
    and d: "is_flat (default_state True (Some (2, 7)) 2)"
    by (simp_all add: default_state_def)
  have 1: "backtrack (default_state False (Some (2, 7)) 2) [5, 9, 2] ?c
             = Inr (default_state False (Some (2, 7)) 2, [5, 9, 2], ?c)"
    using backtrack_unwarranted_or_no_cache [of "default_state False (Some (2, 7)) 2" "[5, 9, 2]" ?c] a
    by blast
  have 2: "backtrack (default_state True None 2) [5, 9, 2] ?c
             = Inr (default_state True None 2, [5, 9, 2], ?c)"
    using backtrack_unwarranted_or_no_cache [of "default_state True None 2" "[5, 9, 2]" ?c] b
    by blast
  from backtrack_unwarranted_or_no_cache [of "default_state True (Some (2, 7)) 2" "[5, 9, 2]" None] c d
  obtain toks' where "backtrack (default_state True (Some (2, 7)) 2) [5, 9, 2] None
        = Inr (default_state True (Some (2, 7)) 2, toks', None)" "toks' = take 2 [5, 9, 2]"
    by blast
  then have 3: "backtrack (default_state True (Some (2, 7)) 2) [5, 9, 2] None
        = Inr (default_state True (Some (2, 7)) 2, [5, 9], None)"
    by simp
  show ?thesis
    using a b c d 1 2 3 by blast
qed

text \<open>
  C7, as the code has it. A warranted \<^verbatim>\<open>backtrack\<close> returns the strategy as it was:
  the position is still pending after the truncation. It is the next \<^verbatim>\<open>on_logits\<close>
  call (the verdict still flat) that clears the position.
\<close>

theorem backtrack_keeps_position_pending:
  assumes "backtrack_position st = Some (f, tok)" and "is_flat st" and "tok < lg_vocab lg"
  shows "\<exists>toks' pkv' lg'. backtrack st toks pkv = Inr (st, toks', pkv')
           \<and> backtrack_position st = Some (f, tok)
           \<and> on_logits st lg = Inr (st\<lparr>backtrack_position := None\<rparr>, lg')"
  using backtrack_tokens [OF assms(1,2), of toks pkv] on_logits_fires [OF assms] assms(1)
  by auto

theorem backtrack_keeps_position_pending_witness:
  "backtrack_position (default_state True (Some (2, 7)) 2) = Some (2, 7)
   \<and> is_flat (default_state True (Some (2, 7)) 2)
   \<and> 7 < lg_vocab logits8
   \<and> (\<exists>toks' pkv' lg'.
         backtrack (default_state True (Some (2, 7)) 2) [5, 9, 2] None
           = Inr (default_state True (Some (2, 7)) 2, toks', pkv')
         \<and> on_logits (default_state True (Some (2, 7)) 2) logits8
           = Inr (default_state True None 2, lg'))"
proof -
  let ?st = "default_state True (Some (2, 7)) 2"
  have h1: "backtrack_position ?st = Some (2, 7)" and h2: "is_flat ?st"
    and h3: "7 < lg_vocab logits8"
    by (simp_all add: default_state_def logits8_def)
  have e: "?st\<lparr>backtrack_position := None\<rparr> = default_state True None 2"
    by (simp add: default_state_def)
  show ?thesis
    using backtrack_keeps_position_pending [OF h1 h2 h3, of "[5, 9, 2]" None] h1 h2 h3
    unfolding e by blast
qed

text \<open>
  C7 as stated fails: after the warranted truncation of [5, 9, 2] to [5, 9] the position
  (2, 7) is still pending.
\<close>

theorem backtrack_clears_position_counterexample:
  "\<exists>st' toks' pkv'.
      backtrack (default_state True (Some (2, 7)) 2) [5, 9, 2] None = Inr (st', toks', pkv')
      \<and> toks' = [5, 9]
      \<and> backtrack_position st' = Some (2, 7)"
  by (simp add: backtrack_def default_state_def pop_while_stop pop_while_pop)


section \<open>Scenario C\<close>

text \<open>
  C1, Scenario C as the code runs it. From a clean state the flat distribution with
  argmax 7 sets the verdict; \<^verbatim>\<open>on_next_token\<close> on [5, 9, 2] sets the keep index to 2
  and the pending position to (2, 7); \<^verbatim>\<open>backtrack\<close>, called next (before the next
  step's \<^verbatim>\<open>on_logits\<close>), returns [5, 9] and a cache cut from sequence length 3 to 2;
  the next step's \<^verbatim>\<open>on_logits\<close> sets token 7's logit to the largest finite value
  and clears the position.
\<close>

theorem scenario_c:
  "on_probs (default_state b None k) probs_flat7 = Inr (default_state True None k, probs_flat7)
   \<and> argmax probs_flat7 = Inr 7
   \<and> on_next_token (default_state True None k) [5, 9, 2] probs_flat7
       = Inr (default_state True (Some (2, 7)) 2)
   \<and> backtrack (default_state True (Some (2, 7)) 2) [5, 9, 2]
         (Some (cache_of [[1, 2], [3, 4], [5, 6]]))
       = Inr (default_state True (Some (2, 7)) 2, [5, 9], Some (cache_of [[1, 2], [3, 4]]))
   \<and> list_all (list_all (has_seq_len 2)) (cache_of [[1, 2], [3, 4]])
   \<and> on_logits (default_state True (Some (2, 7)) 2) logits8
       = Inr (default_state True None 2,
              logits8\<lparr>lg_rows := [[0, 1, 2, 3, 4, 5, 6, finfo_max Float32]]\<rparr>)"
proof (intro conjI)
  show "on_probs (default_state b None k) probs_flat7 = Inr (default_state True None k, probs_flat7)"
    by (simp add: on_probs_def flat7) (simp add: default_state_def)
  show "argmax probs_flat7 = Inr 7"
    by (rule argmax7)
  show "on_next_token (default_state True None k) [5, 9, 2] probs_flat7
       = Inr (default_state True (Some (2, 7)) 2)"
    by (simp add: on_next_token_def argmax7) (simp add: default_state_def)
  show "backtrack (default_state True (Some (2, 7)) 2) [5, 9, 2]
         (Some (cache_of [[1, 2], [3, 4], [5, 6]]))
       = Inr (default_state True (Some (2, 7)) 2, [5, 9], Some (cache_of [[1, 2], [3, 4]]))"
    by (simp add: backtrack_def default_state_def pop_while_stop pop_while_pop cache_of_def
        kv_of_def slice_layer_def slice_to_def)
  show "list_all (list_all (has_seq_len 2)) (cache_of [[1, 2], [3, 4]])"
    by (simp add: cache_of_def kv_of_def has_seq_len_def seq_lens_def)
  show "on_logits (default_state True (Some (2, 7)) 2) logits8
       = Inr (default_state True None 2,
              logits8\<lparr>lg_rows := [[0, 1, 2, 3, 4, 5, 6, finfo_max Float32]]\<rparr>)"
    by (simp add: on_logits_def default_state_def logits8_def)
qed

text \<open>
  C1 as stated fails: once \<^verbatim>\<open>on_logits\<close> has forced token 7 the position is cleared,
  and a \<^verbatim>\<open>backtrack\<close> call made after it returns the tokens [5, 9, 2] and the cache
  unchanged.
\<close>

theorem scenario_c_counterexample:
  "\<exists>st3 lg'. on_logits (default_state True (Some (2, 7)) 2) logits8 = Inr (st3, lg')
      \<and> backtrack st3 [5, 9, 2] (Some (cache_of [[1, 2], [3, 4], [5, 6]]))
          = Inr (st3, [5, 9, 2], Some (cache_of [[1, 2], [3, 4], [5, 6]]))
      \<and> [5, 9, 2] \<noteq> [5, 9 :: int]"
  by (simp add: on_logits_def default_state_def logits8_def backtrack_def)


section \<open>The hooks in the host's order\<close>

lemma on_logits_state:
  assumes "on_logits st lg = Inr (st', lg')"
  shows "keep_index st' = keep_index st
    \<and> (backtrack_position st' = None \<or> backtrack_position st' = backtrack_position st)"
  using assms by (auto simp: on_logits_def split: option.splits if_splits)

lemma on_probs_state:
  assumes "on_probs st p = Inr (st', p')"
  shows "keep_index st' = keep_index st \<and> backtrack_position st' = backtrack_position st"
  using assms by (auto simp: on_probs_def split: sum.splits)

lemma on_next_token_state:
  assumes "on_next_token st toks p = Inr st'"
  shows "toks \<noteq> [] \<and> (\<exists>a. argmax p = Inr a
     \<and> (if last toks \<noteq> int a
         then keep_index st' = length toks - 1
              \<and> backtrack_position st' = Some (length toks - 1, a)
         else if backtrack_position st = None
         then keep_index st' = keep_index st + 1 \<and> backtrack_position st' = None
         else st' = st))"
  using assms by (auto simp: on_next_token_def split: sum.splits if_splits)

lemma backtrack_state:
  assumes "backtrack st toks c = Inr (st', toks', c')"
  shows "st' = st
    \<and> (toks' = toks
       \<or> (\<exists>f t. backtrack_position st = Some (f, t) \<and> f < length toks \<and> toks' = take f toks))"
proof (cases "is_flat st \<and> backtrack_position st \<noteq> None")
  case False
  then have "backtrack st toks c = Inr (st, toks, c)"
    by (intro backtrack_idle) blast
  with assms show ?thesis by simp
next
  case True
  then obtain f t where pos: "backtrack_position st = Some (f, t)" and flat: "is_flat st"
    by auto
  from backtrack_fires [OF pos flat, of toks c] assms pos show ?thesis
    by (auto split: if_splits)
qed

lemma call_preserves_inv:
  assumes "host_inv ph c" and "next_phase ph h = Some ph'" and "call h c = Inr c'"
  shows "host_inv ph' c'"
proof (cases c)
  case (Pair st toks)
  show ?thesis
  proof (cases h)
    case (OnLogits lg)
    with assms Pair obtain st' lg' where r: "on_logits st lg = Inr (st', lg')" "c' = (st', toks)"
      by (auto split: sum.splits)
    from assms(2) OnLogits have "ph' = AwaitProbs"
      by (cases ph) simp_all
    with on_logits_state [OF r(1)] assms(1) Pair r(2) show ?thesis
      by (auto simp: host_inv_def split: option.splits if_splits)
  next
    case (OnProbs p)
    with assms Pair obtain st' p' where r: "on_probs st p = Inr (st', p')" "c' = (st', toks)"
      by (auto split: sum.splits)
    from assms(2) OnProbs have "ph' = AwaitSample"
      by (cases ph) simp_all
    with on_probs_state [OF r(1)] assms(1) Pair r(2) show ?thesis
      by (auto simp: host_inv_def split: option.splits if_splits)
  next
    case (Append t)
    with assms Pair have r: "c' = (st, toks @ [t])"
      by simp
    from assms(2) Append have "ph' = AwaitNextToken"
      by (cases ph) simp_all
    with assms(1) Pair r show ?thesis
      by (auto simp: host_inv_def split: option.splits if_splits)
  next
    case (OnNextToken p)
    with assms Pair obtain st' where r: "on_next_token st toks p = Inr st'" "c' = (st', toks)"
      by (auto split: sum.splits)
    from assms(2) OnNextToken have ph: "ph = AwaitNextToken" "ph' = AfterNextToken"
      by (cases ph; simp)+
    with on_next_token_state [OF r(1)] assms(1) Pair r(2) show ?thesis
      by (auto simp: host_inv_def split: option.splits if_splits)
  next
    case (Backtrack pkv)
    with assms Pair obtain st' toks' pkv' where
      r: "backtrack st toks pkv = Inr (st', toks', pkv')" "c' = (st', toks')"
      by (auto split: sum.splits)
    from assms(2) Backtrack have "ph' = AwaitLogits"
      by (cases ph) simp_all
    with backtrack_state [OF r(1)] assms(1) Pair r(2) show ?thesis
      by (auto simp: host_inv_def split: option.splits if_splits)
  qed
qed

lemma run_preserves_inv:
  assumes "host_inv ph c" and "phase_after ph hs = Some ph'" and "run c hs = Inr c'"
  shows "host_inv ph' c'"
  using assms
proof (induction hs arbitrary: ph c)
  case Nil
  then show ?case by simp
next
  case (Cons h hs)
  from Cons.prems(2) obtain ph1 where p1: "next_phase ph h = Some ph1"
    and p2: "phase_after ph1 hs = Some ph'"
    by (auto split: option.splits)
  from Cons.prems(3) obtain c1 where c1: "call h c = Inr c1" and c2: "run c1 hs = Inr c'"
    by (auto split: sum.splits)
  from call_preserves_inv [OF Cons.prems(1) p1 c1] have "host_inv ph1 c1" .
  from Cons.IH [OF this p2 c2] show ?case .
qed

lemma init_inv: "host_inv AwaitLogits (init cpt rt, [])"
  by (simp add: host_inv_def init_def)

text \<open>
  C8. After any sequence of hook calls in the host's order, started from a freshly
  constructed strategy (keep index 0) and an empty token sequence, the keep index is at
  most the length of the token sequence.
\<close>

theorem keep_index_within_sequence:
  assumes "prescribed hs" and "run (init cpt rt, []) hs = Inr (st, toks)"
  shows "get_keep_index st \<le> length toks"
proof -
  from assms(1) obtain ph where "phase_after AwaitLogits hs = Some ph"
    by (auto simp: prescribed_def)
  from run_preserves_inv [OF init_inv this assms(2)] show ?thesis
    by (simp add: host_inv_def get_keep_index_def)
qed


lemma init_default: "init (35 / 100) (15 / 10) = default_state False None 0"
  by (simp add: init_def default_state_def)

lemma argmax_peaked: "argmax probs_peaked = Inr 0"
  by (simp add: float_eval probs_peaked_def)

lemma on_probs_peaked:
  "on_probs (default_state b pos k) probs_peaked = Inr (default_state False pos k, probs_peaked)"
  by (simp add: on_probs_def peaked) (simp add: default_state_def)

lemma on_logits_default_not_flat:
  "on_logits (default_state False pos k) lg = Inr (default_state False pos k, lg)"
  by (rule on_logits_idle) (simp add: default_state_def)

lemma on_next_token_peaked_diverges:
  "on_next_token (default_state b pos k) (toks @ [1]) probs_peaked
     = Inr (default_state b (Some (length toks, 0)) (length toks))"
  by (simp add: on_next_token_def argmax_peaked) (simp add: default_state_def)

lemma two_divergences:
  "run (init (35 / 100) (15 / 10), [])
      [OnLogits logits3, OnProbs probs_peaked, Append 1, OnNextToken probs_peaked,
       OnLogits logits3, OnProbs probs_peaked, Append 1]
     = Inr (default_state False (Some (0, 0)) 0, [1, 1])"
  unfolding init_default
  using on_next_token_peaked_diverges [of False None 0 "[]"]
    on_next_token_peaked_diverges [of False "Some (0, 0)" 0 "[1]"]
  by (simp add: on_logits_default_not_flat on_probs_peaked)

lemma second_divergence:
  "call (OnNextToken probs_peaked) (default_state False (Some (0, 0)) 0, [1, 1])
     = Inr (default_state False (Some (1, 0)) 1, [1, 1])"
  using on_next_token_peaked_diverges [of False "Some (0, 0)" 0 "[1]"]
  by simp

theorem keep_index_within_sequence_witness:
  "prescribed [OnLogits logits3, OnProbs probs_peaked, Append 1, OnNextToken probs_peaked,
       OnLogits logits3, OnProbs probs_peaked, Append 1]
   \<and> run (init (35 / 100) (15 / 10), [])
      [OnLogits logits3, OnProbs probs_peaked, Append 1, OnNextToken probs_peaked,
       OnLogits logits3, OnProbs probs_peaked, Append 1]
     = Inr (default_state False (Some (0, 0)) 0, [1, 1])
   \<and> get_keep_index (default_state False (Some (0, 0)) 0) \<le> length [1, 1 :: int]"
proof -
  let ?hs = "[OnLogits logits3, OnProbs probs_peaked, Append 1, OnNextToken probs_peaked,
       OnLogits logits3, OnProbs probs_peaked, Append 1]"
  have p: "prescribed ?hs"
    by (simp add: prescribed_def)
  from keep_index_within_sequence [OF p two_divergences] p two_divergences
  show ?thesis by blast
qed

text \<open>
  C6 as stated fails: with the position (0, 0) pending from a divergence at a step that
  was not flat, a second divergence at the next step raises the keep index from 0 to 1.
\<close>

theorem keep_index_frozen_counterexample:
  "prescribed ([OnLogits logits3, OnProbs probs_peaked, Append 1, OnNextToken probs_peaked,
       OnLogits logits3, OnProbs probs_peaked, Append 1] @ [OnNextToken probs_peaked])
   \<and> run (init (35 / 100) (15 / 10), [])
      [OnLogits logits3, OnProbs probs_peaked, Append 1, OnNextToken probs_peaked,
       OnLogits logits3, OnProbs probs_peaked, Append 1]
     = Inr (default_state False (Some (0, 0)) 0, [1, 1])
   \<and> call (OnNextToken probs_peaked) (default_state False (Some (0, 0)) 0, [1, 1])
     = Inr (default_state False (Some (1, 0)) 1, [1, 1])
   \<and> backtrack_position (default_state False (Some (0, 0)) 0) = Some (0, 0)
   \<and> keep_index (default_state False (Some (0, 0)) 0) = 0
   \<and> keep_index (default_state False (Some (1, 0)) 1) = 1"
  using two_divergences second_divergence
  by (simp add: prescribed_def default_state_def)


lemma phase_after_append:
  "phase_after ph (hs @ hs') =
     (case phase_after ph hs of None \<Rightarrow> None | Some ph1 \<Rightarrow> phase_after ph1 hs')"
  by (induction hs arbitrary: ph) (auto split: option.splits)

lemma call_keep_index:
  assumes inv: "host_inv ph (st, toks)" and ph: "next_phase ph h = Some ph'"
    and c: "call h (st, toks) = Inr (st', toks')"
  shows "keep_index st \<le> keep_index st'"
    and "(case h of Backtrack pkv \<Rightarrow> st' = st | OnLogits lg \<Rightarrow> keep_index st' = keep_index st
          | OnProbs p \<Rightarrow> keep_index st' = keep_index st | Append t \<Rightarrow> st' = st
          | OnNextToken p \<Rightarrow> True)"
    and "backtrack_position st \<noteq> None \<and> keep_index st < keep_index st' \<longrightarrow>
           (\<exists>p a. h = OnNextToken p \<and> argmax p = Inr a \<and> last toks \<noteq> int a
                  \<and> keep_index st' = length toks - 1
                  \<and> backtrack_position st' = Some (keep_index st', a))"
    and "\<forall>p a. h = OnNextToken p \<and> argmax p = Inr a \<and> last toks = int a
                 \<and> backtrack_position st \<noteq> None \<longrightarrow> st' = st"
proof -
  have all: "keep_index st \<le> keep_index st'
    \<and> (case h of Backtrack pkv \<Rightarrow> st' = st | OnLogits lg \<Rightarrow> keep_index st' = keep_index st
          | OnProbs p \<Rightarrow> keep_index st' = keep_index st | Append t \<Rightarrow> st' = st
          | OnNextToken p \<Rightarrow> True)
    \<and> (backtrack_position st \<noteq> None \<and> keep_index st < keep_index st' \<longrightarrow>
           (\<exists>p a. h = OnNextToken p \<and> argmax p = Inr a \<and> last toks \<noteq> int a
                  \<and> keep_index st' = length toks - 1
                  \<and> backtrack_position st' = Some (keep_index st', a)))
    \<and> (\<forall>p a. h = OnNextToken p \<and> argmax p = Inr a \<and> last toks = int a
                 \<and> backtrack_position st \<noteq> None \<longrightarrow> st' = st)"
  proof (cases h)
    case (OnLogits lg)
    with c obtain lg' where "on_logits st lg = Inr (st', lg')"
      by (auto split: sum.splits)
    from on_logits_state [OF this] OnLogits show ?thesis by simp
  next
    case (OnProbs p)
    with c obtain p' where "on_probs st p = Inr (st', p')"
      by (auto split: sum.splits)
    from on_probs_state [OF this] OnProbs show ?thesis by simp
  next
    case (Append t)
    with c show ?thesis by simp
  next
    case (OnNextToken p)
    with c have r: "on_next_token st toks p = Inr st'"
      by (auto split: sum.splits)
    from ph OnNextToken have "ph = AwaitNextToken"
      by (cases ph) simp_all
    with inv have "keep_index st < length toks"
      by (simp add: host_inv_def)
    with on_next_token_state [OF r] OnNextToken show ?thesis
      by (auto split: if_splits)
  next
    case (Backtrack pkv)
    with c obtain pkv' where "backtrack st toks pkv = Inr (st', toks', pkv')"
      by (auto split: sum.splits)
    from backtrack_state [OF this] Backtrack show ?thesis by simp
  qed
  from all show "keep_index st \<le> keep_index st'" by blast
  from all show "(case h of Backtrack pkv \<Rightarrow> st' = st | OnLogits lg \<Rightarrow> keep_index st' = keep_index st
          | OnProbs p \<Rightarrow> keep_index st' = keep_index st | Append t \<Rightarrow> st' = st
          | OnNextToken p \<Rightarrow> True)" by blast
  from all show "backtrack_position st \<noteq> None \<and> keep_index st < keep_index st' \<longrightarrow>
           (\<exists>p a. h = OnNextToken p \<and> argmax p = Inr a \<and> last toks \<noteq> int a
                  \<and> keep_index st' = length toks - 1
                  \<and> backtrack_position st' = Some (keep_index st', a))" by blast
  from all show "\<forall>p a. h = OnNextToken p \<and> argmax p = Inr a \<and> last toks = int a
                 \<and> backtrack_position st \<noteq> None \<longrightarrow> st' = st" by blast
qed

text \<open>
  C6, as the code has it. In the host's order, from a fresh strategy and an empty
  sequence, no hook call decreases the keep index, and \<^verbatim>\<open>backtrack\<close> leaves it as it
  is. While a position is pending, a step whose sampled token matches the argmax leaves
  the keep index and the position unchanged, and the keep index increases only in
  \<^verbatim>\<open>on_next_token\<close> at a new divergence, which overwrites the pending position and
  moves the keep index to the length of the sequence minus one.
\<close>

theorem keep_index_monotone:
  assumes "prescribed (hs @ [h])" and "run (init cpt rt, []) hs = Inr (st, toks)"
    and "call h (st, toks) = Inr (st', toks')"
  shows "keep_index st \<le> keep_index st'
    \<and> (\<forall>pkv. h = Backtrack pkv \<longrightarrow> keep_index st' = keep_index st)
    \<and> (\<forall>p a. h = OnNextToken p \<and> argmax p = Inr a \<and> last toks = int a
                 \<and> backtrack_position st \<noteq> None
             \<longrightarrow> keep_index st' = keep_index st \<and> backtrack_position st' = backtrack_position st)
    \<and> (backtrack_position st \<noteq> None \<and> keep_index st < keep_index st' \<longrightarrow>
           (\<exists>p a. h = OnNextToken p \<and> argmax p = Inr a \<and> last toks \<noteq> int a
                  \<and> keep_index st' = length toks - 1
                  \<and> backtrack_position st' = Some (keep_index st', a)))"
proof -
  from assms(1) obtain ph ph' where ph: "phase_after AwaitLogits hs = Some ph"
    and nx: "next_phase ph h = Some ph'"
    by (auto simp: prescribed_def phase_after_append split: option.splits)
  have inv: "host_inv ph (st, toks)"
    by (rule run_preserves_inv [OF init_inv ph assms(2)])
  note k = call_keep_index [OF inv nx assms(3)]
  from k(1) k(2) k(3) k(4) show ?thesis
    by (auto split: hook.splits)
qed

theorem keep_index_monotone_witness:
  "(prescribed ([OnLogits logits3, OnProbs probs_peaked, Append 1, OnNextToken probs_peaked,
       OnLogits logits3, OnProbs probs_peaked, Append 0] @ [OnNextToken probs_peaked])
    \<and> run (init (35 / 100) (15 / 10), [])
       [OnLogits logits3, OnProbs probs_peaked, Append 1, OnNextToken probs_peaked,
        OnLogits logits3, OnProbs probs_peaked, Append 0]
      = Inr (default_state False (Some (0, 0)) 0, [1, 0])
    \<and> call (OnNextToken probs_peaked) (default_state False (Some (0, 0)) 0, [1, 0])
      = Inr (default_state False (Some (0, 0)) 0, [1, 0])
    \<and> argmax probs_peaked = Inr 0 \<and> last [1, 0] = int 0
    \<and> backtrack_position (default_state False (Some (0, 0)) 0) \<noteq> None
    \<and> keep_index (default_state False (Some (0, 0)) 0)
         \<le> keep_index (default_state False (Some (0, 0)) 0))
   \<and> (prescribed ([OnLogits logits3, OnProbs probs_peaked, Append 1, OnNextToken probs_peaked,
       OnLogits logits3, OnProbs probs_peaked, Append 1] @ [OnNextToken probs_peaked])
    \<and> call (OnNextToken probs_peaked) (default_state False (Some (0, 0)) 0, [1, 1])
      = Inr (default_state False (Some (1, 0)) 1, [1, 1])
    \<and> keep_index (default_state False (Some (0, 0)) 0)
         < keep_index (default_state False (Some (1, 0)) 1)
    \<and> (\<exists>p a. OnNextToken probs_peaked = OnNextToken p \<and> argmax p = Inr a
          \<and> last [1, 1] \<noteq> int a
          \<and> backtrack_position (default_state False (Some (1, 0)) 1)
              = Some (keep_index (default_state False (Some (1, 0)) 1), a)))
   \<and> (prescribed ([OnLogits logits3, OnProbs probs_peaked, Append 1, OnNextToken probs_peaked]
          @ [Backtrack None])
    \<and> call (Backtrack None) (default_state False (Some (0, 0)) 0, [1])
      = Inr (default_state False (Some (0, 0)) 0, [1])
    \<and> keep_index (default_state False (Some (0, 0)) 0)
         = keep_index (default_state False (Some (0, 0)) 0))"
proof -
  let ?hs = "[OnLogits logits3, OnProbs probs_peaked, Append 1, OnNextToken probs_peaked,
       OnLogits logits3, OnProbs probs_peaked, Append 0]"
  let ?hs2 = "[OnLogits logits3, OnProbs probs_peaked, Append 1, OnNextToken probs_peaked,
       OnLogits logits3, OnProbs probs_peaked, Append 1]"
  let ?hs3 = "[OnLogits logits3, OnProbs probs_peaked, Append 1, OnNextToken probs_peaked]"
  let ?pend = "default_state False (Some (0, 0)) 0"
  have p: "prescribed (?hs @ [OnNextToken probs_peaked])"
    and p2: "prescribed (?hs2 @ [OnNextToken probs_peaked])"
    and p3: "prescribed (?hs3 @ [Backtrack None])"
    by (simp_all add: prescribed_def)
  have r: "run (init (35 / 100) (15 / 10), []) ?hs = Inr (?pend, [1, 0])"
    unfolding init_default
    using on_next_token_peaked_diverges [of False None 0 "[]"]
    by (simp add: on_logits_default_not_flat on_probs_peaked)
  have r3: "run (init (35 / 100) (15 / 10), []) ?hs3 = Inr (?pend, [1])"
    unfolding init_default
    using on_next_token_peaked_diverges [of False None 0 "[]"]
    by (simp add: on_logits_default_not_flat on_probs_peaked)
  have c: "call (OnNextToken probs_peaked) (?pend, [1, 0]) = Inr (?pend, [1, 0])"
    by (simp add: on_next_token_def argmax_peaked) (simp add: default_state_def)
  have c3: "call (Backtrack None) (?pend, [1]) = Inr (?pend, [1])"
    by (simp add: backtrack_def default_state_def)
  have n: "backtrack_position ?pend \<noteq> None"
    and lt: "keep_index ?pend < keep_index (default_state False (Some (1, 0)) 1)"
    by (simp_all add: default_state_def)
  have l: "last [1, 0] = int 0"
    by simp
  note t1 = keep_index_monotone [OF p r c]
  note t2 = keep_index_monotone [OF p2 two_divergences second_divergence]
  note t3 = keep_index_monotone [OF p3 r3 c3]
  have a1: "keep_index ?pend \<le> keep_index ?pend"
    using t1 by (rule conjunct1)
  have a2: "\<exists>p a. OnNextToken probs_peaked = OnNextToken p \<and> argmax p = Inr a
          \<and> last [1, 1] \<noteq> int a
          \<and> backtrack_position (default_state False (Some (1, 0)) 1)
              = Some (keep_index (default_state False (Some (1, 0)) 1), a)"
    using t2 n lt by blast
  have a3: "keep_index ?pend = keep_index ?pend"
    using t3 by blast
  show ?thesis
    by (intro conjI p p2 p3 r c c3 n lt l argmax_peaked second_divergence a1 a2 a3)
qed

lemma run_append:
  "run c (hs @ hs') = (case run c hs of Inl e \<Rightarrow> Inl e | Inr c' \<Rightarrow> run c' hs')"
  by (induction hs arbitrary: c) (auto split: sum.splits)

lemma set_is_flat_same: "is_flat st = b \<Longrightarrow> st\<lparr>is_flat := b\<rparr> = st"
  by (cases st) auto

lemma matching_step_run:
  assumes pos: "backtrack_position st = Some (f, t)" and nf: "\<not> is_flat st"
    and ms: "matching_step st verdict s"
  shows "\<exists>toks'. run (st, toks) (step_hooks s) = Inr (st\<lparr>is_flat := verdict\<rparr>, toks')
           \<and> (\<not> verdict \<longrightarrow> toks' = toks @ [gs_sampled s])"
proof -
  from ms obtain a where flat: "is_distribution_flat st (gs_probs s) = Inr verdict"
    and am: "argmax (gs_probs s) = Inr a" and sm: "gs_sampled s = int a"
    by (auto simp: matching_step_def split: sum.splits)
  let ?st = "st\<lparr>is_flat := verdict\<rparr>"
  let ?toks = "toks @ [gs_sampled s]"
  have 1: "on_logits st (gs_logits s) = Inr (st, gs_logits s)"
    using nf by (intro on_logits_idle) simp
  have 2: "on_probs st (gs_probs s) = Inr (?st, gs_probs s)"
    by (simp add: on_probs_def flat)
  have 3: "on_next_token ?st ?toks (gs_probs s) = Inr ?st"
    using pos by (simp add: on_next_token_def am sm)
  have main: "run (st, toks)
      [OnLogits (gs_logits s), OnProbs (gs_probs s), Append (gs_sampled s),
       OnNextToken (gs_probs s)] = Inr (?st, ?toks)"
    by (simp add: 1 2 3)
  show ?thesis
  proof (cases "gs_backtrack s")
    case None
    then have "step_hooks s =
        [OnLogits (gs_logits s), OnProbs (gs_probs s), Append (gs_sampled s),
         OnNextToken (gs_probs s)]"
      by (simp add: step_hooks_def)
    with main show ?thesis
      by simp
  next
    case (Some c)
    have "\<exists>toks'. backtrack ?st ?toks c = Inr (?st, toks', c) \<and> (\<not> verdict \<longrightarrow> toks' = ?toks)
            \<or> (\<exists>toks' c'. verdict \<and> backtrack ?st ?toks c = Inr (?st, toks', c'))"
    proof (cases verdict)
      case False
      then have "backtrack ?st ?toks c = Inr (?st, ?toks, c)"
        by (intro backtrack_idle) simp
      then show ?thesis by blast
    next
      case True
      have "backtrack_position ?st = Some (f, t)" and "is_flat ?st"
        using pos True by simp_all
      from backtrack_tokens [OF this, of ?toks c] True show ?thesis by blast
    qed
    then obtain toks' c' where bt: "backtrack ?st ?toks c = Inr (?st, toks', c')"
      and same: "\<not> verdict \<longrightarrow> toks' = ?toks"
      by blast
    have "step_hooks s =
        [OnLogits (gs_logits s), OnProbs (gs_probs s), Append (gs_sampled s),
         OnNextToken (gs_probs s)] @ [Backtrack c]"
      using Some by (simp add: step_hooks_def)
    then have "run (st, toks) (step_hooks s) = run (?st, ?toks) [Backtrack c]"
      by (simp only: run_append main sum.case)
    also have "\<dots> = Inr (?st, toks')"
      using bt by simp
    finally show ?thesis
      using same by blast
  qed
qed

lemma quiet_steps_run:
  assumes pos: "backtrack_position st = Some (f, t)" and nf: "\<not> is_flat st"
    and quiet: "\<forall>s \<in> set steps. matching_step st False s"
  shows "run (st, toks) (concat (map step_hooks steps)) = Inr (st, toks @ map gs_sampled steps)"
  using quiet
proof (induction steps arbitrary: toks)
  case Nil
  then show ?case by simp
next
  case (Cons s steps)
  then have ms: "matching_step st False s" by simp
  from matching_step_run [OF pos nf ms, of toks]
  have "run (st, toks) (step_hooks s) = Inr (st\<lparr>is_flat := False\<rparr>, toks @ [gs_sampled s])"
    by auto
  then have "run (st, toks) (step_hooks s) = Inr (st, toks @ [gs_sampled s])"
    using nf by (simp add: set_is_flat_same)
  moreover have "run (st, toks @ [gs_sampled s]) (concat (map step_hooks steps))
      = Inr (st, (toks @ [gs_sampled s]) @ map gs_sampled steps)"
    using Cons.prems by (intro Cons.IH) simp
  ultimately show ?case
    by (simp add: run_append)
qed

text \<open>
  C10. A divergence recorded by \<^verbatim>\<open>on_next_token\<close> at a step whose verdict is not
  flat leaves the position (length - 1, argmax) pending. Any number of following steps
  whose sampled token matches the argmax and whose verdict is not flat (with or without
  a \<^verbatim>\<open>backtrack\<close> call) return the strategy unchanged, so the position and the keep
  index persist. A following matching step with a flat verdict changes only the verdict,
  and the \<^verbatim>\<open>on_logits\<close> call after it forces the token recorded at the original
  divergence and clears the position.
\<close>

theorem pending_persists_until_flat:
  assumes "on_probs st0 p0 = Inr (st1, p0)" and "\<not> is_flat st1"
    and "toks \<noteq> []" and "argmax p0 = Inr t" and "last toks \<noteq> int t"
    and "on_next_token st1 toks p0 = Inr st"
    and "\<forall>s \<in> set steps. matching_step st False s"
    and "matching_step st True s"
    and "t < lg_vocab lg"
  shows "backtrack_position st = Some (length toks - 1, t)
    \<and> keep_index st = length toks - 1
    \<and> run (st, toks) (concat (map step_hooks steps)) = Inr (st, toks @ map gs_sampled steps)
    \<and> (\<exists>toks'. run (st, toks @ map gs_sampled steps) (step_hooks s)
                  = Inr (st\<lparr>is_flat := True\<rparr>, toks'))
    \<and> on_logits (st\<lparr>is_flat := True\<rparr>) lg
        = Inr (st\<lparr>is_flat := True, backtrack_position := None\<rparr>,
               lg\<lparr>lg_rows := map (\<lambda>r. r[t := finfo_max (lg_dtype lg)]) (lg_rows lg)\<rparr>)"
proof -
  have st: "st = st1\<lparr>keep_index := length toks - 1,
                     backtrack_position := Some (length toks - 1, t)\<rparr>"
    using assms(3-6) by (simp add: on_next_token_def)
  then have pos: "backtrack_position st = Some (length toks - 1, t)"
    and keep: "keep_index st = length toks - 1" and nf: "\<not> is_flat st"
    using assms(2) by simp_all
  have quiet: "run (st, toks) (concat (map step_hooks steps))
      = Inr (st, toks @ map gs_sampled steps)"
    by (rule quiet_steps_run [OF pos nf assms(7)])
  have flat: "\<exists>toks'. run (st, toks @ map gs_sampled steps) (step_hooks s)
                  = Inr (st\<lparr>is_flat := True\<rparr>, toks')"
    using matching_step_run [OF pos nf assms(8)] by blast
  have "backtrack_position (st\<lparr>is_flat := True\<rparr>) = Some (length toks - 1, t)"
    and "is_flat (st\<lparr>is_flat := True\<rparr>)"
    using pos by simp_all
  from on_logits_fires [OF this assms(9)]
  have force: "on_logits (st\<lparr>is_flat := True\<rparr>) lg
        = Inr (st\<lparr>is_flat := True, backtrack_position := None\<rparr>,
               lg\<lparr>lg_rows := map (\<lambda>r. r[t := finfo_max (lg_dtype lg)]) (lg_rows lg)\<rparr>)"
    by simp
  from pos keep quiet flat force show ?thesis by blast
qed


lemma flat3: "is_distribution_flat (default_state b pos k) probs_flat3 = Inr True"
  by (simp add: flat_eval float_eval probs_flat3_def default_state_def)

lemma argmax_flat3: "argmax probs_flat3 = Inr 0"
  by (simp add: float_eval probs_flat3_def)

theorem pending_persists_until_flat_witness:
  "on_probs (default_state False None 0) probs_peaked
      = Inr (default_state False None 0, probs_peaked)
   \<and> \<not> is_flat (default_state False None 0)
   \<and> [1] \<noteq> ([] :: int list)
   \<and> argmax probs_peaked = Inr 0
   \<and> last [1] \<noteq> int 0
   \<and> on_next_token (default_state False None 0) [1] probs_peaked
      = Inr (default_state False (Some (0, 0)) 0)
   \<and> list_all (matching_step (default_state False (Some (0, 0)) 0) False) [quiet_step, quiet_step]
   \<and> matching_step (default_state False (Some (0, 0)) 0) True flat_step
   \<and> 0 < lg_vocab logits3
   \<and> run (default_state False (Some (0, 0)) 0, [1])
          (concat (map step_hooks [quiet_step, quiet_step]))
      = Inr (default_state False (Some (0, 0)) 0, [1, 0, 0])
   \<and> (\<exists>toks'. run (default_state False (Some (0, 0)) 0, [1, 0, 0]) (step_hooks flat_step)
                  = Inr (default_state True (Some (0, 0)) 0, toks'))
   \<and> on_logits (default_state True (Some (0, 0)) 0) logits3
      = Inr (default_state True None 0, logits3\<lparr>lg_rows := [[65504, 2, 3], [65504, 5, 6]]\<rparr>)"
proof -
  let ?clean = "default_state False None 0"
  let ?pend = "default_state False (Some (0, 0)) 0"
  have h1: "on_probs ?clean probs_peaked = Inr (?clean, probs_peaked)"
    by (rule on_probs_peaked)
  have h2: "\<not> is_flat ?clean"
    by (simp add: default_state_def)
  have h3: "[1] \<noteq> ([] :: int list)" and h5: "last [1] \<noteq> int 0"
    by simp_all
  have h6: "on_next_token ?clean [1] probs_peaked = Inr ?pend"
    using on_next_token_peaked_diverges [of False None 0 "[]"] by simp
  have q: "matching_step ?pend False quiet_step"
    by (simp add: matching_step_def quiet_step_def peaked argmax_peaked)
  then have h7: "\<forall>s \<in> set [quiet_step, quiet_step]. matching_step ?pend False s"
    by simp
  have h8: "matching_step ?pend True flat_step"
    by (simp add: matching_step_def flat_step_def flat3 argmax_flat3)
  have h9: "0 < lg_vocab logits3"
    by (simp add: logits3_def)
  have e1: "?pend\<lparr>is_flat := True\<rparr> = default_state True (Some (0, 0)) 0"
    by (simp add: default_state_def)
  have e2: "(default_state True (Some (0, 0)) 0)\<lparr>backtrack_position := None\<rparr>
              = default_state True None 0"
    by (simp add: default_state_def)
  have e3: "[1] @ map gs_sampled [quiet_step, quiet_step] = [1, 0, 0]"
    by (simp add: quiet_step_def)
  have e4: "logits3\<lparr>lg_rows := map (\<lambda>r. r[0 := finfo_max (lg_dtype logits3)]) (lg_rows logits3)\<rparr>
              = logits3\<lparr>lg_rows := [[65504, 2, 3], [65504, 5, 6]]\<rparr>"
    by (simp add: logits3_def)
  note th = pending_persists_until_flat [OF h1 h2 h3 argmax_peaked h5 h6 h7 h8 h9,
      unfolded e1 e2 e3 e4]
  from th h1 h2 h3 argmax_peaked h5 h6 q h8 h9 show ?thesis
    by simp
qed


section \<open>Truncation at the host's backtrack calls\<close>









text \<open>
  Outside the host's order the frontier can equal the length of the sequence (a second
  \<^verbatim>\<open>backtrack\<close> call on what the first one returned): no token is popped, the stop
  of the slice is 0 and the arrays come back with no position.
\<close>

lemma backtrack_at_frontier:
  "backtrack (default_state True (Some (2, 7)) 2) [5, 9] (Some (cache_of [[1, 2], [3, 4]]))
     = Inr (default_state True (Some (2, 7)) 2, [5, 9], Some (cache_of []))"
  by (simp add: backtrack_def default_state_def pop_while_stop pop_while_pop cache_of_def
      kv_of_def slice_layer_def slice_to_def)

section \<open>The flatness verdict\<close>

lemma peaked_k: "searchsorted (cumsum (sort_descending probs_peaked)) (35 / 100) + 1 = 1"
  by (simp add: flat_eval float_eval probs_peaked_def)

lemma scen_b_k: "searchsorted (cumsum (sort_descending probs_scenario_b)) (35 / 100) + 1 = 2"
  by (simp add: flat_eval float_eval probs_scenario_b_def)

lemma scen_b_ratio:
  "103 / 100 < round_to binary64
       (sort_descending probs_scenario_b ! 0
          / round_to binary64 (sort_descending probs_scenario_b ! (min 2 (length probs_scenario_b) - 1)
              + round_to binary64 (1 / 10 ^ 8)))
   \<and> round_to binary64
       (sort_descending probs_scenario_b ! 0
          / round_to binary64 (sort_descending probs_scenario_b ! (min 2 (length probs_scenario_b) - 1)
              + round_to binary64 (1 / 10 ^ 8))) < 104 / 100"
  by (simp add: flat_eval float_eval probs_scenario_b_def)

lemma is_distribution_flat_empty: "is_distribution_flat st [] = Inr False"
  by (simp add: flat_eval)

text \<open>
  A threshold that no running sum reaches: \<^verbatim>\<open>searchsorted\<close> returns the length, the
  number of top tokens is one more than there are entries, the slice is the whole sorted
  distribution, and the top is compared with its smallest entry.
\<close>

lemma threshold_unreached:
  "cumsum (sort_descending (tensor32 [1 / 2, 1 / 2])) = [1 / 2, 1]
   \<and> round_to binary32 2 = 2
   \<and> searchsorted (cumsum (sort_descending (tensor32 [1 / 2, 1 / 2]))) 2 + 1 = 3
   \<and> is_distribution_flat (init 2 (15 / 10)) (tensor32 [1 / 2, 1 / 2]) = Inr True"
  by (simp add: flat_eval float_eval init_def)

text \<open>
  The running sums are the rounded ones: here the exact sum of the two largest entries
  is below the threshold 0.75, the stored running sum is 0.75, and two top tokens are
  taken.
\<close>

lemma rounded_running_sum:
  "tensor32 [3 / 8, 3 / 8 - 1 / 2 ^ 25, 1 / 4 + 1 / 2 ^ 25] = [3 / 8, 3 / 8 - 1 / 2 ^ 25, 1 / 4 + 1 / 2 ^ 25]
   \<and> 3 / 8 + (3 / 8 - 1 / 2 ^ 25) < (3 / 4 :: real)
   \<and> cumsum (sort_descending [3 / 8, 3 / 8 - 1 / 2 ^ 25, 1 / 4 + 1 / 2 ^ 25]) ! 1 = 3 / 4
   \<and> searchsorted (cumsum (sort_descending [3 / 8, 3 / 8 - 1 / 2 ^ 25, 1 / 4 + 1 / 2 ^ 25])) (3 / 4) + 1 = 2
   \<and> is_distribution_flat (init (3 / 4) (12 / 10)) [3 / 8, 3 / 8 - 1 / 2 ^ 25, 1 / 4 + 1 / 2 ^ 25]
       = Inr True"
  by (simp add: flat_eval float_eval init_def)


text \<open>
  C2, as the code has it. For every non-empty distribution with non-negative entries and
  every pair of thresholds, \<^verbatim>\<open>_is_distribution_flat\<close> sorts the distribution
  descending (the sorted list is a descending rearrangement of it) and takes as \<^verbatim>\<open>k\<close>
  one more than the number of leading running sums (as \<^verbatim>\<open>torch.cumsum\<close> stores them,
  32-bit floats) that are below the cumulative threshold (cast to a 32-bit float): when
  some running sum reaches the threshold, \<^verbatim>\<open>k\<close> is the smallest prefix length whose
  running sum reaches it, and otherwise \<^verbatim>\<open>k\<close> is the number of entries plus one. The
  verdict is false when \<^verbatim>\<open>k < 2\<close>, and otherwise it is whether
  \<^verbatim>\<open>sorted[0] / (bottom + 1e-8)\<close>, computed in Python floats, is at most the ratio
  threshold, where \<^verbatim>\<open>bottom\<close> is \<^verbatim>\<open>sorted[k-1]\<close>, or the smallest entry when no
  running sum reaches the threshold; no division by zero occurs. With the default
  thresholds, [0.5, 0.48, 0.02] has \<^verbatim>\<open>k = 1\<close> and the verdict false, and
  [0.30, 0.29, 0.28, 0.13] has \<^verbatim>\<open>k = 2\<close>, a ratio between 1.03 and 1.04 and the
  verdict true.
\<close>

theorem is_flat_boundary:
  assumes "probs \<noteq> []" and "\<forall>p \<in> set probs. 0 \<le> p"
  shows "sorted_wrt (\<lambda>a b. b \<le> a) (sort_descending probs)
    \<and> mset (sort_descending probs) = mset probs
    \<and> (\<exists>k. k = searchsorted (cumsum (sort_descending probs)) (cumulative_prob_threshold st) + 1
        \<and> 1 \<le> k \<and> k \<le> length probs + 1
        \<and> (\<forall>j. 1 \<le> j \<and> j < k \<longrightarrow>
               cumsum (sort_descending probs) ! (j - 1)
                 < round_to binary32 (cumulative_prob_threshold st))
        \<and> (k \<le> length probs \<longrightarrow>
               round_to binary32 (cumulative_prob_threshold st)
                 \<le> cumsum (sort_descending probs) ! (k - 1))
        \<and> is_distribution_flat st probs =
            Inr (if k < 2 then False
                 else round_to binary64
                        (sort_descending probs ! 0
                           / round_to binary64 (sort_descending probs ! (min k (length probs) - 1)
                               + round_to binary64 (1 / 10 ^ 8)))
                        \<le> ratio_threshold st))
    \<and> (searchsorted (cumsum (sort_descending probs_peaked)) (35 / 100) + 1 = 1
      \<and> is_distribution_flat (default_state b pos n) probs_peaked = Inr False)
    \<and> (searchsorted (cumsum (sort_descending probs_scenario_b)) (35 / 100) + 1 = 2
      \<and> 103 / 100 < round_to binary64
           (sort_descending probs_scenario_b ! 0
              / round_to binary64
                  (sort_descending probs_scenario_b ! (min 2 (length probs_scenario_b) - 1)
                     + round_to binary64 (1 / 10 ^ 8)))
      \<and> round_to binary64
           (sort_descending probs_scenario_b ! 0
              / round_to binary64
                  (sort_descending probs_scenario_b ! (min 2 (length probs_scenario_b) - 1)
                     + round_to binary64 (1 / 10 ^ 8))) < 104 / 100
      \<and> is_distribution_flat (default_state b pos n) probs_scenario_b = Inr True)"
  using sort_descending_sorted [of probs] mset_sort_descending [of probs]
    is_distribution_flat_general [OF assms, of st] peaked_k peaked scen_b_k scen_b_ratio scen_b
  by (intro conjI) blast+

text \<open>
  C2 as stated fails: for the distribution [0.5, 0.5] and the cumulative threshold 2 no
  prefix has a running sum that reaches the threshold, so there is no such \<^verbatim>\<open>k\<close>; the
  code takes three top tokens of the two entries and returns true.
\<close>

theorem is_flat_boundary_counterexample:
  "list_all (\<lambda>c. c < round_to binary32 2)
      (cumsum (sort_descending (tensor32 [1 / 2, 1 / 2])))
   \<and> searchsorted (cumsum (sort_descending (tensor32 [1 / 2, 1 / 2]))) 2 + 1 = 3
   \<and> length (tensor32 [1 / 2, 1 / 2]) = 2
   \<and> is_distribution_flat (init 2 (15 / 10)) (tensor32 [1 / 2, 1 / 2]) = Inr True"
  by (simp add: flat_eval float_eval init_def)

theorem is_flat_boundary_witness:
  "probs_scenario_b \<noteq> []
   \<and> list_all (\<lambda>p. 0 \<le> p) probs_scenario_b
   \<and> (\<exists>k. k = 2
        \<and> round_to binary32 (cumulative_prob_threshold (default_state False None 0))
             \<le> cumsum (sort_descending probs_scenario_b) ! (k - 1)
        \<and> is_distribution_flat (default_state False None 0) probs_scenario_b =
            Inr (if k < 2 then False
                 else round_to binary64
                        (sort_descending probs_scenario_b ! 0
                           / round_to binary64
                               (sort_descending probs_scenario_b
                                  ! (min k (length probs_scenario_b) - 1)
                                + round_to binary64 (1 / 10 ^ 8)))
                        \<le> ratio_threshold (default_state False None 0)))"
proof -
  let ?clean = "default_state False None 0"
  have h1: "probs_scenario_b \<noteq> []"
    by (simp add: probs_scenario_b_def tensor32_def)
  have h2': "list_all (\<lambda>p. 0 \<le> p) probs_scenario_b"
    by (simp add: probs_scenario_b_def float_eval)
  then have h2: "\<forall>p \<in> set probs_scenario_b. 0 \<le> p"
    by (simp add: list_all_iff)
  have thr: "cumulative_prob_threshold ?clean = 35 / 100"
    by (simp add: default_state_def)
  have len: "length probs_scenario_b = 4"
    by (simp add: probs_scenario_b_def tensor32_def)
  note th = is_flat_boundary [OF h1 h2, of ?clean]
  from th obtain k where k: "k = searchsorted (cumsum (sort_descending probs_scenario_b))
                         (cumulative_prob_threshold ?clean) + 1"
    and reach: "k \<le> length probs_scenario_b \<longrightarrow>
        round_to binary32 (cumulative_prob_threshold ?clean)
          \<le> cumsum (sort_descending probs_scenario_b) ! (k - 1)"
    and v: "is_distribution_flat ?clean probs_scenario_b =
            Inr (if k < 2 then False
                 else round_to binary64
                        (sort_descending probs_scenario_b ! 0
                           / round_to binary64
                               (sort_descending probs_scenario_b
                                  ! (min k (length probs_scenario_b) - 1)
                                + round_to binary64 (1 / 10 ^ 8)))
                        \<le> ratio_threshold ?clean)"
    by blast
  have k2: "k = 2"
    using k scen_b_k unfolding thr by simp
  have "round_to binary32 (cumulative_prob_threshold ?clean)
          \<le> cumsum (sort_descending probs_scenario_b) ! (k - 1)"
    using reach k2 len by simp
  with k2 v h1 h2' show ?thesis
    by blast
qed


end
